theory Spec2Isabelle
  imports Main "HOL-Library.Char_ord" "HOL-Library.List_Lexorder" "HOL-Library.Sublist"
begin

section \<open>Strings as Go has them\<close>

text \<open>
  A Go string is a sequence of bytes, here a \<open>char list\<close>. Go compares strings
  byte by byte, a proper prefix first: the order of \<open>List_Lexorder\<close> over
  \<open>Char_ord\<close>, so \<open>sort.Strings\<close> is \<open>sort\<close>.
\<close>

definition HasPrefix :: "string \<Rightarrow> string \<Rightarrow> bool" where
  "HasPrefix s pre = prefix pre s"

text \<open>
  \<open>regexp\<close> and \<open>strings.Fields\<close> read a string rune by rune with
  \<open>utf8.DecodeRuneInString\<close>: the code point and the number of bytes it takes;
  a byte that starts no well-formed UTF-8 sequence is the rune U+FFFD of width 1.
\<close>

definition RuneError :: nat where
  "RuneError = 0xFFFD"

fun DecodeRuneInString :: "string \<Rightarrow> nat \<times> nat" where
  "DecodeRuneInString [] = (RuneError, 0)"
| "DecodeRuneInString (c0 # s) =
     (let s0 = (of_char c0 :: nat) in
      if s0 < 0x80 then (s0, 1)
      else if s0 < 0xC2 \<or> 0xF4 < s0 then (RuneError, 1)
      else
        let sz = (if s0 < 0xE0 then 2 else if s0 < 0xF0 then 3 else (4::nat));
            lo = (if s0 = 0xE0 then 0xA0 else if s0 = 0xF0 then 0x90 else (0x80::nat));
            hi = (if s0 = 0xED then 0x9F else if s0 = 0xF4 then 0x8F else (0xBF::nat))
        in
          if length (c0 # s) < sz then (RuneError, 1)
          else
            let s1 = (of_char (s ! 0) :: nat) in
            if s1 < lo \<or> hi < s1 then (RuneError, 1)
            else if sz \<le> 2 then ((s0 mod 32) * 64 + s1 mod 64, 2)
            else
              let s2 = (of_char (s ! 1) :: nat) in
              if s2 < 0x80 \<or> 0xBF < s2 then (RuneError, 1)
              else if sz \<le> 3 then ((s0 mod 16) * 4096 + (s1 mod 64) * 64 + s2 mod 64, 3)
              else
                let s3 = (of_char (s ! 2) :: nat) in
                if s3 < 0x80 \<or> 0xBF < s3 then (RuneError, 1)
                else ((s0 mod 8) * 262144 + (s1 mod 64) * 4096 + (s2 mod 64) * 64
                        + s3 mod 64, 4))"

section \<open>Label sanitizer\<close>

text \<open>
  \<open>invalidLabelCharRE\<close> is the compiled class \<open>[^a-zA-Z0-9_]\<close>: it matches one
  rune, any rune outside the three ranges and the underscore.
\<close>

definition invalidLabelCharRE :: "nat \<Rightarrow> bool" where
  "invalidLabelCharRE r =
     (\<not> ((0x61 \<le> r \<and> r \<le> 0x7A) \<or> (0x41 \<le> r \<and> r \<le> 0x5A)
          \<or> (0x30 \<le> r \<and> r \<le> 0x39) \<or> r = 0x5F))"

text \<open>
  \<open>ReplaceAllString(name, "_")\<close>: every match, one rune each, becomes one
  underscore; the bytes of a rune that does not match are copied.
\<close>

function sanitizeLabelName :: "string \<Rightarrow> string" where
  "sanitizeLabelName [] = []"
| "sanitizeLabelName (c # s) =
     (case DecodeRuneInString (c # s) of (r, width) \<Rightarrow>
        if invalidLabelCharRE r
        then CHR ''_'' # sanitizeLabelName (drop width (c # s))
        else take width (c # s) @ sanitizeLabelName (drop width (c # s)))"
  by pat_completeness auto
termination
  by (relation "measure length") (auto simp: Let_def split: if_splits)

text \<open>The characters the claims call \<open>[A-Za-z0-9_]\<close>, as bytes.\<close>

definition labelChar :: "char \<Rightarrow> bool" where
  "labelChar c =
     ((CHR ''a'' \<le> c \<and> c \<le> CHR ''z'') \<or> (CHR ''A'' \<le> c \<and> c \<le> CHR ''Z'')
      \<or> (CHR ''0'' \<le> c \<and> c \<le> CHR ''9'') \<or> c = CHR ''_'')"

section \<open>OID range minimizer\<close>

text \<open>
  The loop of \<open>minimizeOids\<close> over the sorted slice, with its two variables
  \<open>prevOid\<close> and \<open>minimized\<close>.
\<close>

fun minimizeOidsLoop :: "string list \<Rightarrow> string \<Rightarrow> string list \<Rightarrow> string list" where
  "minimizeOidsLoop [] prevOid minimized = minimized"
| "minimizeOidsLoop (oid # oids) prevOid minimized =
     (if \<not> HasPrefix (oid @ ''.'') prevOid \<or> prevOid = ''''
      then minimizeOidsLoop oids (oid @ ''.'') (minimized @ [oid])
      else minimizeOidsLoop oids prevOid minimized)"

definition minimizeOids :: "string list \<Rightarrow> string list" where
  "minimizeOids oids = minimizeOidsLoop (sort oids) '''' []"

text \<open>
  The same loop without the accumulator: what it appends to \<open>minimized\<close>
  (lemma \<open>minimizeOidsLoop_keptFrom\<close>).
\<close>

fun keptFrom :: "string \<Rightarrow> string list \<Rightarrow> string list" where
  "keptFrom prevOid [] = []"
| "keptFrom prevOid (oid # oids) =
     (if \<not> HasPrefix (oid @ ''.'') prevOid \<or> prevOid = ''''
      then oid # keptFrom (oid @ ''.'') oids
      else keptFrom prevOid oids)"

text \<open>
  The words of the specification. An OID is decimal segments separated by single dots,
  with no dot at either end; \<open>a\<close> is a dotted prefix of \<open>b\<close> when \<open>a + "."\<close> is a
  prefix of \<open>b + "."\<close>, that is, when the segments of \<open>a\<close> are the first segments
  of \<open>b\<close> (lemma \<open>dottedPrefix_segments\<close>).
\<close>

fun segments :: "string \<Rightarrow> string list" where
  "segments [] = [[]]"
| "segments (c # s) =
     (if c = CHR ''.'' then [] # segments s
      else (case segments s of [] \<Rightarrow> [[c]] | seg # segs \<Rightarrow> (c # seg) # segs))"

definition isDigit :: "char \<Rightarrow> bool" where
  "isDigit c = (CHR ''0'' \<le> c \<and> c \<le> CHR ''9'')"

definition validOid :: "string \<Rightarrow> bool" where
  "validOid s = list_all (\<lambda>seg. seg \<noteq> [] \<and> list_all isDigit seg) (segments s)"

definition dottedPrefix :: "string \<Rightarrow> string \<Rightarrow> bool" where
  "dottedPrefix a b = prefix (a @ ''.'') (b @ ''.'')"

definition antichain :: "string list \<Rightarrow> bool" where
  "antichain oids = (\<forall>a\<in>set oids. \<forall>b\<in>set oids. a \<noteq> b \<longrightarrow> \<not> dottedPrefix a b)"

section \<open>The object tree\<close>

text \<open>
  Modelled from the spec: the declaration of \<open>Node\<close> is not among the sources. Its
  fields are the ones \<open>PrepareTree\<close>, \<open>generateConfigModule\<close> and the dump
  command read, with the types they are used at, as section 3 of the specification lists
  them. A node owns its children, so the tree is a datatype; the fields other than
  \<open>Children\<close> are a record.
\<close>

record NodeFields =
  Oid :: string
  Label :: string
  Augments :: string
  Description :: string
  Type :: string
  Hint :: string
  TextualConvention :: string
  FixedSize :: int
  Access :: string
  Indexes :: "string list"

datatype Node = Node (fieldsOf: NodeFields) (Children: "Node list")

text \<open>
  A \<open>*Node\<close> into the tree is the path from the root to the node: the positions of the
  children to descend through. \<open>nodeAt\<close> reads through such a pointer, \<open>updateAt\<close>
  writes through it.
\<close>

type_synonym path = "nat list"

fun nodeAt :: "Node \<Rightarrow> path \<Rightarrow> Node option" where
  "nodeAt n [] = Some n"
| "nodeAt n (i # p) = (if i < length (Children n) then nodeAt (Children n ! i) p else None)"

fun updateAt :: "path \<Rightarrow> (Node \<Rightarrow> Node) \<Rightarrow> Node \<Rightarrow> Node" where
  "updateAt [] f n = f n"
| "updateAt (i # p) f n =
     (if i < length (Children n)
      then Node (fieldsOf n) ((Children n)[i := updateAt p f (Children n ! i)])
      else n)"

definition mapFields :: "(NodeFields \<Rightarrow> NodeFields) \<Rightarrow> Node \<Rightarrow> Node" where
  "mapFields g n = Node (g (fieldsOf n)) (Children n)"

definition fieldsAt :: "Node \<Rightarrow> path \<Rightarrow> NodeFields option" where
  "fieldsAt t p = map_option fieldsOf (nodeAt t p)"

definition indexesAt :: "Node \<Rightarrow> path \<Rightarrow> string list option" where
  "indexesAt t p = map_option Indexes (fieldsAt t p)"

definition augmentsAt :: "Node \<Rightarrow> path \<Rightarrow> string option" where
  "augmentsAt t p = map_option Augments (fieldsAt t p)"

definition arityAt :: "Node \<Rightarrow> path \<Rightarrow> nat option" where
  "arityAt t p = map_option (\<lambda>n. length (Children n)) (nodeAt t p)"

text \<open>
  \<open>WalkNode(n, f)\<close> calls \<open>f\<close> on \<open>n\<close> and then walks the children in order.
  \<open>WalkOrder\<close> is the order of the calls, as pointers; \<open>WalkNode\<close> threads a state
  through them. No callback of \<open>PrepareTree\<close> changes a \<open>Children\<close> slice, so the
  order is that of the tree the walk starts on.
\<close>

fun WalkOrder :: "Node \<Rightarrow> path list"
  and WalkOrderFrom :: "nat \<Rightarrow> Node list \<Rightarrow> path list" where
  "WalkOrder (Node d cs) = [] # WalkOrderFrom 0 cs"
| "WalkOrderFrom i [] = []"
| "WalkOrderFrom i (c # cs) = map ((#) i) (WalkOrder c) @ WalkOrderFrom (Suc i) cs"

definition WalkNode :: "Node \<Rightarrow> (path \<Rightarrow> 's \<Rightarrow> 's) \<Rightarrow> 's \<Rightarrow> 's" where
  "WalkNode n f s = fold f (WalkOrder n) s"

text \<open>For a callback that only reads: the nodes in the order of the calls.\<close>

fun WalkNodes :: "Node \<Rightarrow> Node list" where
  "WalkNodes (Node d cs) = Node d cs # concat (map WalkNodes cs)"

section \<open>PrepareTree\<close>

text \<open>The first walk: the map from OIDs and labels to nodes; a later node wins.\<close>

definition putNode :: "Node \<Rightarrow> path \<Rightarrow> (string \<rightharpoonup> path) \<Rightarrow> (string \<rightharpoonup> path)" where
  "putNode t p nameToNode =
     (case fieldsAt t p of
        None \<Rightarrow> nameToNode
      | Some n \<Rightarrow> (nameToNode(Oid n \<mapsto> p))(Label n \<mapsto> p))"

text \<open>
  The description: \<open>strings.Fields\<close> splits around runs of white space
  (\<open>unicode.IsSpace\<close>), \<open>strings.Join\<close> puts single spaces between the fields, and
  \<open>strings.Split(s, ". ")[0]\<close> is what stands before the first \<open>". "\<close>.
\<close>

definition IsSpace :: "nat \<Rightarrow> bool" where
  "IsSpace r =
     (r \<in> {0x09, 0x0A, 0x0B, 0x0C, 0x0D, 0x20, 0x85, 0xA0, 0x1680, 0x2028, 0x2029, 0x202F,
            0x205F, 0x3000}
      \<or> (0x2000 \<le> r \<and> r \<le> 0x200A))"

function FieldsFrom :: "string \<Rightarrow> string \<Rightarrow> string list" where
  "FieldsFrom cur [] = (if cur = [] then [] else [cur])"
| "FieldsFrom cur (c # s) =
     (case DecodeRuneInString (c # s) of (r, width) \<Rightarrow>
        if IsSpace r
        then (if cur = [] then [] else [cur]) @ FieldsFrom [] (drop width (c # s))
        else FieldsFrom (cur @ take width (c # s)) (drop width (c # s)))"
  by pat_completeness auto
termination
  by (relation "measure (\<lambda>(cur, s). length s)") (auto simp: Let_def split: if_splits)

definition Fields :: "string \<Rightarrow> string list" where
  "Fields s = FieldsFrom [] s"

fun Join :: "string list \<Rightarrow> string \<Rightarrow> string" where
  "Join [] sep = []"
| "Join [x] sep = x"
| "Join (x # y # zs) sep = x @ sep @ Join (y # zs) sep"

fun firstSentence :: "string \<Rightarrow> string" where
  "firstSentence [] = []"
| "firstSentence (c # s) = (if HasPrefix (c # s) ''. '' then [] else c # firstSentence s)"

definition trimDescription :: "NodeFields \<Rightarrow> NodeFields" where
  "trimDescription n = n\<lparr>Description := firstSentence (Join (Fields (Description n)) '' '')\<rparr>"

text \<open>The second walk: an index \<open>INTEGER\<close> becomes the node's own label.\<close>

definition fixIndexes :: "NodeFields \<Rightarrow> NodeFields" where
  "fixIndexes n = n\<lparr>Indexes := map (\<lambda>i. if i = ''INTEGER'' then Label n else i) (Indexes n)\<rparr>"

text \<open>
  \<open>dst.Indexes = src.Indexes\<close> through two pointers, and the loop
  \<open>for _, c := range n.Children { c.Indexes = src.Indexes }\<close> for the node at \<open>p\<close>.
\<close>

definition assignIndexes :: "path \<Rightarrow> path \<Rightarrow> Node \<Rightarrow> Node" where
  "assignIndexes dst src t =
     (case indexesAt t src of
        None \<Rightarrow> t
      | Some is \<Rightarrow> updateAt dst (mapFields (\<lambda>n. n\<lparr>Indexes := is\<rparr>)) t)"

definition assignChildren :: "path \<Rightarrow> path \<Rightarrow> Node \<Rightarrow> Node" where
  "assignChildren p src t =
     (case arityAt t p of
        None \<Rightarrow> t
      | Some k \<Rightarrow> fold (\<lambda>i. assignIndexes (p @ [i]) src) [0..<k] t)"

text \<open>The third walk: copy the indexes of the augmented node.\<close>

definition copyAugmented :: "(string \<rightharpoonup> path) \<Rightarrow> path \<Rightarrow> Node \<Rightarrow> Node" where
  "copyAugmented nameToNode p t =
     (case fieldsAt t p of
        None \<Rightarrow> t
      | Some n \<Rightarrow>
          if Augments n = '''' then t
          else (case nameToNode (Augments n) of
                  None \<Rightarrow> t
                | Some augmented \<Rightarrow> assignIndexes p augmented (assignChildren p augmented t)))"

text \<open>The fourth walk: a node with indexes hands them to its children.\<close>

definition copyToChildren :: "path \<Rightarrow> Node \<Rightarrow> Node" where
  "copyToChildren p t =
     (case indexesAt t p of
        None \<Rightarrow> t
      | Some is \<Rightarrow> if length is \<noteq> 0 then assignChildren p p t else t)"

text \<open>
  The fifth walk. \<open>displayStringRe\<close> is \<open>\d+[at]\<close> matched anywhere in the hint:
  some decimal digit stands right before an \<open>a\<close> or a \<open>t\<close>.
\<close>

fun displayStringRe :: "string \<Rightarrow> bool" where
  "displayStringRe (d # c # s) =
     (isDigit d \<and> (c = CHR ''a'' \<or> c = CHR ''t'') \<or> displayStringRe (c # s))"
| "displayStringRe s = False"

definition setType :: "NodeFields \<Rightarrow> NodeFields" where
  "setType n =
     (let n1 = (if Hint n = ''1x:'' then n\<lparr>Type := ''PhysAddress48''\<rparr> else n);
          n2 = (if displayStringRe (Hint n1) then n1\<lparr>Type := ''DisplayString''\<rparr> else n1)
      in if TextualConvention n2 = ''DisplayString'' then n2\<lparr>Type := ''DisplayString''\<rparr>
         else n2)"

text \<open>
  \<open>PrepareTree\<close> changes the tree in place and returns the map: here it returns both.
\<close>

definition PrepareTree :: "Node \<Rightarrow> Node \<times> (string \<rightharpoonup> path)" where
  "PrepareTree nodes =
     (let nameToNode = WalkNode nodes (putNode nodes) Map.empty;
          t1 = WalkNode nodes (\<lambda>p. updateAt p (mapFields trimDescription)) nodes;
          t2 = WalkNode t1 (\<lambda>p. updateAt p (mapFields fixIndexes)) t1;
          t3 = WalkNode t2 (copyAugmented nameToNode) t2;
          t4 = WalkNode t3 copyToChildren t3;
          t5 = WalkNode t4 (\<lambda>p. updateAt p (mapFields setType)) t4
      in (t5, nameToNode))"

text \<open>What a map of pointers into the tree holds, for a reader that changes nothing.\<close>

definition deref :: "Node \<Rightarrow> (string \<rightharpoonup> path) \<Rightarrow> (string \<rightharpoonup> Node)" where
  "deref t nameToNode name = (case nameToNode name of None \<Rightarrow> None | Some p \<Rightarrow> nodeAt t p)"

section \<open>Type and access classifiers\<close>

text \<open>\<open>metricType\<close> returns a kind and \<open>ok\<close>: \<open>None\<close> is \<open>("", false)\<close>.\<close>

definition metricType :: "string \<Rightarrow> string option" where
  "metricType t =
     (if t \<in> set [''INTEGER'', ''GAUGE'', ''TIMETICKS'', ''UINTEGER'', ''UNSIGNED32'', ''INTEGER32'']
        then Some ''gauge''
      else if t \<in> set [''COUNTER'', ''COUNTER64''] then Some ''counter''
      else if t \<in> set [''OCTETSTR'', ''BITSTRING''] then Some ''OctetString''
      else if t = ''IPADDR'' then Some ''IpAddr''
      else if t = ''NETADDR'' then Some ''InetAddress''
      else if t \<in> set [''PhysAddress48'', ''DisplayString''] then Some t
      else None)"

definition metricAccess :: "string \<Rightarrow> bool" where
  "metricAccess a =
     (a \<in> set [''ACCESS_READONLY'', ''ACCESS_READWRITE'', ''ACCESS_CREATE'', ''ACCESS_NOACCESS''])"

section \<open>The module generator\<close>

text \<open>
  Modelled from the spec: the structs of the \<open>config\<close> package (\<open>Module\<close>,
  \<open>Metric\<close>, \<open>Index\<close>, \<open>Lookup\<close>) and of the generator's own configuration
  (\<open>ModuleConfig\<close>, \<open>Lookup\<close>, \<open>MetricOverrides\<close>) are declared outside the sources.
  Their fields are the ones \<open>generateConfigModule\<close> reads and writes, as section 3 of the
  specification lists them. The generator only copies the regex-extraction directives, so
  their type is a parameter \<open>'r\<close>; \<open>None\<close> is the \<open>nil\<close> of a metric nobody
  overrides. \<open>WalkParams\<close> is set by the caller and left out.
\<close>

record config_Index =
  Index_Labelname :: string
  Index_Type :: string
  Index_FixedSize :: int

record config_Lookup =
  Lookup_Labels :: "string list"
  Lookup_Labelname :: string
  Lookup_Type :: string
  Lookup_Oid :: string

record 'r config_Metric =
  Metric_Name :: string
  Metric_Oid :: string
  Metric_Type :: string
  Metric_Help :: string
  Metric_Indexes :: "config_Index list"
  Metric_Lookups :: "config_Lookup list"
  Metric_RegexpExtracts :: "'r option"

record 'r config_Module =
  Module_Walk :: "string list"
  Module_Metrics :: "'r config_Metric list"

record Lookup =
  OldIndex :: string
  NewIndex :: string

record 'r MetricOverrides =
  RegexpExtracts :: "'r option"

text \<open>
  \<open>Overrides\<close> is a Go map; \<open>range\<close> visits its entries in an order Go leaves open.
  Here it is the list of the entries in the order of the visit.
\<close>

record 'r ModuleConfig =
  Walk :: "string list"
  Lookups :: "Lookup list"
  Overrides :: "(string \<times> 'r MetricOverrides) list"

text \<open>
  \<open>log.Fatalf\<close> ends the process: the three fatal messages are errors, and so is the
  panic of reading \<open>node.Oid\<close> through a nil pointer.
\<close>

datatype error =
  CannotFindOid string
  | UnknownIndex string
  | UnknownIndexType string string
  | NilDereference

type_synonym nameIndex = "string \<rightharpoonup> Node"

text \<open>The first loop: every entry of \<open>cfg.Walk\<close> resolved to the OID of its node.\<close>

fun resolveWalk :: "nameIndex \<Rightarrow> string list \<Rightarrow> error + string list" where
  "resolveWalk nameToNode [] = Inr []"
| "resolveWalk nameToNode (oid # oids) =
     (case nameToNode oid of
        None \<Rightarrow> Inl (CannotFindOid oid)
      | Some node \<Rightarrow>
          (case resolveWalk nameToNode oids of
             Inl e \<Rightarrow> Inl e
           | Inr toWalk \<Rightarrow> Inr (Oid (fieldsOf node) # toWalk)))"

text \<open>
  The callback of the second loop. The inner loop over \<open>n.Indexes\<close> gives the indexes
  of the metric, or \<open>None\<close> where the callback returns early.
\<close>

fun metricIndexes :: "nameIndex \<Rightarrow> string list \<Rightarrow> config_Index list option" where
  "metricIndexes nameToNode [] = Some []"
| "metricIndexes nameToNode (i # is) =
     (case nameToNode i of
        None \<Rightarrow> None
      | Some indexNode \<Rightarrow>
          (case metricType (Type (fieldsOf indexNode)) of
             None \<Rightarrow> None
           | Some t \<Rightarrow>
               (case metricIndexes nameToNode is of
                  None \<Rightarrow> None
                | Some indexes \<Rightarrow>
                    Some (\<lparr>Index_Labelname = i, Index_Type = t,
                           Index_FixedSize = FixedSize (fieldsOf indexNode)\<rparr> # indexes))))"

definition nodeMetric :: "nameIndex \<Rightarrow> Node \<Rightarrow> 'r config_Metric option" where
  "nodeMetric nameToNode n =
     (case metricType (Type (fieldsOf n)) of
        None \<Rightarrow> None
      | Some t \<Rightarrow>
          if \<not> metricAccess (Access (fieldsOf n)) then None
          else
            (case metricIndexes nameToNode (Indexes (fieldsOf n)) of
               None \<Rightarrow> None
             | Some indexes \<Rightarrow>
                 Some \<lparr>Metric_Name = sanitizeLabelName (Label (fieldsOf n)),
                       Metric_Oid = Oid (fieldsOf n),
                       Metric_Type = t,
                       Metric_Help = Description (fieldsOf n) @ '' - '' @ Oid (fieldsOf n),
                       Metric_Indexes = indexes,
                       Metric_Lookups = [],
                       Metric_RegexpExtracts = None\<rparr>))"

text \<open>
  The second loop. Its state is \<open>out.Metrics\<close> and \<open>needToWalk\<close>; the latter is a Go
  map used as a set, here the list of the keys in the order they were put in.
\<close>

fun walkLoop :: "nameIndex \<Rightarrow> string list \<Rightarrow> 'r config_Metric list \<times> string list
    \<Rightarrow> error + 'r config_Metric list \<times> string list" where
  "walkLoop nameToNode [] st = Inr st"
| "walkLoop nameToNode (oid # toWalk) (metrics, needToWalk) =
     (case nameToNode oid of
        None \<Rightarrow> Inl NilDereference
      | Some node \<Rightarrow>
          walkLoop nameToNode toWalk
            (metrics @ List.map_filter (nodeMetric nameToNode) (WalkNodes node),
             needToWalk @ [Oid (fieldsOf node)]))"

text \<open>
  The lookups. For one rule and one metric, the loop over \<open>metric.Indexes\<close>: the
  indexes as rewritten, the lookups appended to the metric and the OIDs put into
  \<open>needToWalk\<close>.
\<close>

fun lookupIndexes :: "nameIndex \<Rightarrow> Lookup \<Rightarrow> config_Index list
    \<Rightarrow> error + config_Index list \<times> config_Lookup list \<times> string list" where
  "lookupIndexes nameToNode lookup [] = Inr ([], [], [])"
| "lookupIndexes nameToNode lookup (index # indexes) =
     (if Index_Labelname index = OldIndex lookup then
        (case nameToNode (NewIndex lookup) of
           None \<Rightarrow> Inl (UnknownIndex (NewIndex lookup))
         | Some indexNode \<Rightarrow>
             (case metricType (Type (fieldsOf indexNode)) of
                None \<Rightarrow> Inl (UnknownIndexType (Type (fieldsOf indexNode)) (NewIndex lookup))
              | Some typ \<Rightarrow>
                  (case lookupIndexes nameToNode lookup indexes of
                     Inl e \<Rightarrow> Inl e
                   | Inr (indexes', lookups, oids) \<Rightarrow>
                       Inr (index\<lparr>Index_Labelname := sanitizeLabelName (Label (fieldsOf indexNode))\<rparr>
                              # indexes',
                            \<lparr>Lookup_Labels = [sanitizeLabelName (Label (fieldsOf indexNode))],
                             Lookup_Labelname = sanitizeLabelName (Label (fieldsOf indexNode)),
                             Lookup_Type = typ,
                             Lookup_Oid = Oid (fieldsOf indexNode)\<rparr> # lookups,
                            Oid (fieldsOf indexNode) # oids))))
      else
        (case lookupIndexes nameToNode lookup indexes of
           Inl e \<Rightarrow> Inl e
         | Inr (indexes', lookups, oids) \<Rightarrow> Inr (index # indexes', lookups, oids)))"

fun lookupMetrics :: "nameIndex \<Rightarrow> Lookup \<Rightarrow> 'r config_Metric list
    \<Rightarrow> error + 'r config_Metric list \<times> string list" where
  "lookupMetrics nameToNode lookup [] = Inr ([], [])"
| "lookupMetrics nameToNode lookup (metric # metrics) =
     (case lookupIndexes nameToNode lookup (Metric_Indexes metric) of
        Inl e \<Rightarrow> Inl e
      | Inr (indexes, lookups, oids) \<Rightarrow>
          (case lookupMetrics nameToNode lookup metrics of
             Inl e \<Rightarrow> Inl e
           | Inr (metrics', oids') \<Rightarrow>
               Inr (metric\<lparr>Metric_Indexes := indexes,
                            Metric_Lookups := Metric_Lookups metric @ lookups\<rparr> # metrics',
                    oids @ oids')))"

fun applyLookups :: "nameIndex \<Rightarrow> Lookup list \<Rightarrow> 'r config_Metric list \<times> string list
    \<Rightarrow> error + 'r config_Metric list \<times> string list" where
  "applyLookups nameToNode [] st = Inr st"
| "applyLookups nameToNode (lookup # lookups) (metrics, needToWalk) =
     (case lookupMetrics nameToNode lookup metrics of
        Inl e \<Rightarrow> Inl e
      | Inr (metrics', oids) \<Rightarrow> applyLookups nameToNode lookups (metrics', needToWalk @ oids))"

text \<open>The overrides: one entry of the map against every metric, entry after entry.\<close>

definition applyOverride :: "string \<times> 'r MetricOverrides \<Rightarrow> 'r config_Metric \<Rightarrow> 'r config_Metric" where
  "applyOverride ov metric =
     (if fst ov = Metric_Name metric \<or> fst ov = Metric_Oid metric
      then metric\<lparr>Metric_RegexpExtracts := RegexpExtracts (snd ov)\<rparr>
      else metric)"

definition applyOverrides :: "(string \<times> 'r MetricOverrides) list \<Rightarrow> 'r config_Metric list
    \<Rightarrow> 'r config_Metric list" where
  "applyOverrides overrides metrics = fold (\<lambda>ov. map (applyOverride ov)) overrides metrics"

text \<open>
  The keys of \<open>needToWalk\<close>, each once. \<open>range\<close> may give them in any order; the walk
  list does not depend on it (lemma \<open>minimizeOids_set_cong\<close>).
\<close>

definition keys :: "string list \<Rightarrow> string list" where
  "keys needToWalk = remdups needToWalk"

text \<open>
  The parameter \<open>node\<close> is the root of the tree; the body never reads it (the loops
  declare a \<open>node\<close> of their own).
\<close>

definition generateConfigModule :: "'r ModuleConfig \<Rightarrow> Node \<Rightarrow> nameIndex \<Rightarrow> error + 'r config_Module" where
  "generateConfigModule cfg node nameToNode =
     (case resolveWalk nameToNode (Walk cfg) of
        Inl e \<Rightarrow> Inl e
      | Inr toWalk \<Rightarrow>
          (case walkLoop nameToNode (minimizeOids toWalk) ([], []) of
             Inl e \<Rightarrow> Inl e
           | Inr (metrics, needToWalk) \<Rightarrow>
               (case applyLookups nameToNode (Lookups cfg) (metrics, needToWalk) of
                  Inl e \<Rightarrow> Inl e
                | Inr (metrics', needToWalk') \<Rightarrow>
                    Inr \<lparr>Module_Walk = minimizeOids (keys needToWalk'),
                         Module_Metrics = applyOverrides (Overrides cfg) metrics'\<rparr>)))"

section \<open>Predicates on the generator's output\<close>

text \<open>The entries of \<open>Overrides\<close> whose key is the name or the OID of a metric.\<close>

definition matching :: "'r config_Metric \<Rightarrow> (string \<times> 'r MetricOverrides) list
    \<Rightarrow> (string \<times> 'r MetricOverrides) list" where
  "matching metric overrides =
     filter (\<lambda>ov. fst ov = Metric_Name metric \<or> fst ov = Metric_Oid metric) overrides"

text \<open>A metric whose name and whose lookups' labelnames are all of \<open>[A-Za-z0-9_]\<close>.\<close>

definition sanitized :: "'r config_Metric \<Rightarrow> bool" where
  "sanitized metric \<longleftrightarrow>
     list_all labelChar (Metric_Name metric)
     \<and> list_all (\<lambda>lookup. list_all labelChar (Lookup_Labelname lookup)) (Metric_Lookups metric)"

section \<open>Inputs of the examples\<close>

text \<open>Two columns of the interfaces table, with the name index that holds just them.\<close>

definition ifInOctets :: Node where
  "ifInOctets = Node \<lparr>Oid = ''1.3.6.1.2.1.2.2.1.10'', Label = ''ifInOctets'', Augments = '''',
     Description = ''The total number of octets received on the interface'', Type = ''COUNTER'', Hint = '''',
     TextualConvention = '''', FixedSize = 0, Access = ''ACCESS_READWRITE'',
     Indexes = [''ifIndex'']\<rparr> []"

definition ifIndex :: Node where
  "ifIndex = Node \<lparr>Oid = ''1.3.6.1.2.1.2.2.1.1'', Label = ''ifIndex'', Augments = '''',
     Description = ''A unique value'', Type = ''INTEGER'', Hint = '''',
     TextualConvention = '''', FixedSize = 0, Access = ''ACCESS_READONLY'',
     Indexes = []\<rparr> []"

definition ifNames :: nameIndex where
  "ifNames = [''1.3.6.1.2.1.2.2.1.10'' \<mapsto> ifInOctets, ''ifInOctets'' \<mapsto> ifInOctets,
              ''1.3.6.1.2.1.2.2.1.1'' \<mapsto> ifIndex, ''ifIndex'' \<mapsto> ifIndex]"

definition ifInOctetsMetric :: "nat config_Metric" where
  "ifInOctetsMetric =
     \<lparr>Metric_Name = ''ifInOctets'', Metric_Oid = ''1.3.6.1.2.1.2.2.1.10'',
      Metric_Type = ''counter'', Metric_Help = ''- 1.3.6.1.2.1.2.2.1.10'',
      Metric_Indexes = [], Metric_Lookups = [], Metric_RegexpExtracts = None\<rparr>"

text \<open>The row of the interfaces table over its two columns, as the loader gives it.\<close>

definition ifEntry :: Node where
  "ifEntry =
     Node \<lparr>Oid = ''1.3.6.1.2.1.2.2.1'', Label = ''ifEntry'', Augments = '''',
           Description = ''An entry  containing management information. Applicable to one interface'',
           Type = ''OTHER'', Hint = '''', TextualConvention = '''', FixedSize = 0,
           Access = ''ACCESS_NOACCESS'', Indexes = [''ifIndex'']\<rparr>
       [Node \<lparr>Oid = ''1.3.6.1.2.1.2.2.1.1'', Label = ''ifIndex'', Augments = '''',
              Description = ''A unique value'', Type = ''INTEGER'', Hint = ''d'',
              TextualConvention = '''', FixedSize = 0, Access = ''ACCESS_READONLY'',
              Indexes = []\<rparr> [],
        Node \<lparr>Oid = ''1.3.6.1.2.1.2.2.1.10'', Label = ''ifInOctets'', Augments = '''',
              Description = ''The total number of octets. Received on the interface'',
              Type = ''COUNTER'', Hint = '''', TextualConvention = '''', FixedSize = 0,
              Access = ''ACCESS_READWRITE'', Indexes = []\<rparr> []]"

text \<open>
  The tree of two nodes: \<open>ifInOctets\<close> at the root and \<open>ifIndex\<close>, its only
  child.
\<close>

definition ifInOctetsTree :: Node where
  "ifInOctetsTree =
     Node \<lparr>Oid = ''1.3.6.1.2.1.2.2.1.10'', Label = ''ifInOctets'', Augments = '''',
           Description = ''The total number of octets received on the interface'',
           Type = ''COUNTER'', Hint = '''', TextualConvention = '''', FixedSize = 0,
           Access = ''ACCESS_READWRITE'', Indexes = [''ifIndex'']\<rparr>
       [Node \<lparr>Oid = ''1.3.6.1.2.1.2.2.1.1'', Label = ''ifIndex'', Augments = '''',
              Description = ''A unique value'', Type = ''INTEGER'', Hint = '''',
              TextualConvention = '''', FixedSize = 0, Access = ''ACCESS_READONLY'',
              Indexes = []\<rparr> []]"

text \<open>A column indexed by an object whose label has a hyphen, as SMIv1 allows.\<close>

definition slotIndex :: Node where
  "slotIndex = Node \<lparr>Oid = ''1.3.6.1.4.1.9.1.1'', Label = ''slot-Index'', Augments = '''',
     Description = '''', Type = ''INTEGER'', Hint = '''', TextualConvention = '''',
     FixedSize = 0, Access = ''ACCESS_READONLY'', Indexes = []\<rparr> []"

definition slotTemp :: Node where
  "slotTemp = Node \<lparr>Oid = ''1.3.6.1.4.1.9.1.2'', Label = ''slot-Temp'', Augments = '''',
     Description = '''', Type = ''GAUGE'', Hint = '''', TextualConvention = '''',
     FixedSize = 0, Access = ''ACCESS_READONLY'', Indexes = [''slot-Index'']\<rparr> []"

definition slotNames :: nameIndex where
  "slotNames = [''1.3.6.1.4.1.9.1.1'' \<mapsto> slotIndex, ''slot-Index'' \<mapsto> slotIndex,
                ''1.3.6.1.4.1.9.1.2'' \<mapsto> slotTemp, ''slot-Temp'' \<mapsto> slotTemp]"

text \<open>
  The tree of the augmentation examples: a root over the row \<open>A\<close> and the row
  \<open>B\<close> that augments it, with one column.
\<close>

definition leaf :: "string \<Rightarrow> string \<Rightarrow> string \<Rightarrow> string list \<Rightarrow> NodeFields" where
  "leaf oid label augments indexes =
     \<lparr>Oid = oid, Label = label, Augments = augments, Description = '''', Type = ''OTHER'',
      Hint = '''', TextualConvention = '''', FixedSize = 0, Access = ''ACCESS_NOACCESS'',
      Indexes = indexes\<rparr>"

definition augmentingTree :: "string list \<Rightarrow> Node" where
  "augmentingTree rootIndexes =
     Node (leaf ''1'' ''root'' '''' rootIndexes)
       [Node (leaf ''1.1'' ''A'' '''' [''INTEGER'']) [],
        Node (leaf ''1.2'' ''B'' ''A'' []) [Node (leaf ''1.2.1'' ''C'' '''' []) []]]"

section \<open>The sanitizer: its output and idempotence\<close>

lemma sanitize_example:
  "sanitizeLabelName ''if-In.Octets'' = ''if_In_Octets''"
  by (simp add: invalidLabelCharRE_def)

lemma sanitize_multibyte_example:
  "sanitizeLabelName [CHR ''a'', CHR 0xC3, CHR 0xA9, CHR ''b'', CHR 0xA9] = ''a_b_''"
  by (simp add: invalidLabelCharRE_def RuneError_def)

lemma mod_range:
  fixes n :: nat
  assumes "q * m \<le> n" and "n < q * m + m"
  shows "n mod m = n - q * m"
proof -
  obtain r where r: "n = q * m + r" using assms(1) by (auto simp: le_iff_add)
  with assms(2) have "r < m" by simp
  then show ?thesis by (simp add: r)
qed

lemma lead_byte_bits:
  fixes n :: nat
  shows "194 \<le> n \<Longrightarrow> n < 224 \<Longrightarrow> 2 \<le> n mod 32"
    and "224 < n \<Longrightarrow> n < 240 \<Longrightarrow> 1 \<le> n mod 16"
    and "160 \<le> n \<Longrightarrow> n \<le> 191 \<Longrightarrow> 32 \<le> n mod 64"
    and "240 < n \<Longrightarrow> n \<le> 244 \<Longrightarrow> 1 \<le> n mod 8"
    and "144 \<le> n \<Longrightarrow> n \<le> 191 \<Longrightarrow> 16 \<le> n mod 64"
  using mod_range[of 6 32 n] mod_range[of 14 16 n] mod_range[of 2 64 n] mod_range[of 30 8 n]
  by simp_all

text \<open>A byte of 0x80 or more never starts a rune below 0x80: overlong forms are refused.\<close>

lemma decode_nonascii:
  assumes "\<not> (of_char c :: nat) < 0x80"
  shows "0x80 \<le> fst (DecodeRuneInString (c # s))"
proof -
  define s0 :: nat where "s0 = of_char c"
  have hi: "\<not> s0 < 128" using assms by (simp add: s0_def)
  consider (bad) "s0 < 0xC2 \<or> 0xF4 < s0" | (two) "0xC2 \<le> s0" "s0 < 0xE0"
    | (e0) "s0 = 0xE0" | (three) "0xE0 < s0" "s0 < 0xF0" | (f0) "s0 = 0xF0"
    | (four) "0xF0 < s0" "s0 \<le> 0xF4"
    by linarith
  then show ?thesis
  proof cases
    case bad
    then show ?thesis using hi by (auto simp: Let_def s0_def[symmetric] RuneError_def)
  next
    case two
    from lead_byte_bits(1)[of s0] two have "2 \<le> s0 mod 32" by simp
    then have "128 \<le> s0 mod 32 * 64 + x" for x by linarith
    then show ?thesis using hi two by (simp add: Let_def s0_def[symmetric] RuneError_def)
  next
    case e0
    have "\<not> a < 160 \<Longrightarrow> \<not> 191 < a \<Longrightarrow> 128 \<le> a mod 64 * 64 + x" for a x :: nat
      using lead_byte_bits(3)[of a] by simp
    then show ?thesis using hi e0 by (simp add: Let_def s0_def[symmetric] RuneError_def)
  next
    case three
    from lead_byte_bits(2)[of s0] three have "1 \<le> s0 mod 16" by simp
    then have "128 \<le> s0 mod 16 * 4096 + x + y" for x y by linarith
    then show ?thesis using hi three by (simp add: Let_def s0_def[symmetric] RuneError_def)
  next
    case f0
    have "\<not> a < 144 \<Longrightarrow> \<not> 191 < a \<Longrightarrow> 128 \<le> a mod 64 * 4096 + x + y" for a x y :: nat
      using lead_byte_bits(5)[of a] by simp
    then show ?thesis using hi f0 by (simp add: Let_def s0_def[symmetric] RuneError_def)
  next
    case four
    from lead_byte_bits(4)[of s0] four have "1 \<le> s0 mod 8" by simp
    then have "128 \<le> s0 mod 8 * 262144 + x + y + z" for x y z by linarith
    then show ?thesis using hi four by (simp add: Let_def s0_def[symmetric] RuneError_def)
  qed
qed

lemma underscore_code: "(of_char c = (95::nat)) = (c = CHR ''_'')"
  using of_char_eq_iff[of c "CHR ''_''", where ?'a = nat] by simp

lemma labelChar_iff: "labelChar c \<longleftrightarrow> \<not> invalidLabelCharRE (of_char c)"
  unfolding labelChar_def invalidLabelCharRE_def less_eq_char_def
  by (simp add: underscore_code)

text \<open>A rune the class does not match is one byte, and that byte is the rune.\<close>

lemma decode_unmatched:
  assumes "DecodeRuneInString (c # s) = (r, w)" and "\<not> invalidLabelCharRE r"
  shows "w = 1 \<and> r = of_char c"
proof -
  have r: "r < 0x80" using assms(2) by (auto simp: invalidLabelCharRE_def)
  show ?thesis
  proof (cases "(of_char c :: nat) < 0x80")
    case True
    then show ?thesis using assms(1) by (simp add: Let_def)
  next
    case False
    from decode_nonascii[OF False, of s] show ?thesis using r assms(1) by simp
  qed
qed

lemma sanitize_labelChars: "\<forall>c\<in>set (sanitizeLabelName s). labelChar c"
proof (induction s rule: sanitizeLabelName.induct)
  case 1
  then show ?case by simp
next
  case (2 c s)
  obtain r w where d: "DecodeRuneInString (c # s) = (r, w)"
    by (cases "DecodeRuneInString (c # s)")
  show ?case
  proof (cases "invalidLabelCharRE r")
    case True
    then show ?thesis using 2(1)[OF d[symmetric] True] d
      by (simp add: labelChar_def)
  next
    case False
    from decode_unmatched[OF d False] have w: "w = 1" and rc: "r = of_char c" by auto
    have "labelChar c" using False rc by (simp add: labelChar_iff)
    then show ?thesis using 2(2)[OF d[symmetric] False] d False w
      by simp
  qed
qed

lemma sanitize_fixes_labels:
  "\<forall>c\<in>set s. labelChar c \<Longrightarrow> sanitizeLabelName s = s"
proof (induction s)
  case Nil
  then show ?case by simp
next
  case (Cons c s)
  then have lc: "\<not> invalidLabelCharRE (of_char c)" by (simp add: labelChar_iff)
  then have "(of_char c :: nat) < 0x80" by (auto simp: invalidLabelCharRE_def)
  then have d: "DecodeRuneInString (c # s) = (of_char c, 1)" by (simp add: Let_def)
  show ?case using Cons lc d by simp
qed

text \<open>
  Claim C8. The sanitizer is a total function (its recursion terminates on every string),
  sanitizing twice is sanitizing once, and every byte of its result is one of
  \<open>[A-Za-z0-9_]\<close>.
\<close>

theorem sanitizeLabelName_idempotent:
  "sanitizeLabelName (sanitizeLabelName x) = sanitizeLabelName x
   \<and> (\<forall>c\<in>set (sanitizeLabelName x). labelChar c)"
  using sanitize_labelChars[of x] sanitize_fixes_labels[of "sanitizeLabelName x"] by blast

theorem sanitizeLabelName_idempotent_witness:
  "sanitizeLabelName (sanitizeLabelName ''if-In.Octets'') = ''if_In_Octets''
   \<and> list_all labelChar (sanitizeLabelName ''if-In.Octets'')"
  using sanitizeLabelName_idempotent[of "''if-In.Octets''"]
  by (simp add: invalidLabelCharRE_def list_all_iff)

section \<open>The minimizer\<close>

lemma minimizeOids_example:
  "minimizeOids [''1.3.6.1.2.1.2.2.1.10'', ''1.3.6.1.2.1.2'', ''1.3.6.1.2.1.20'', ''1.3.6.1.2.1.2'']
     = [''1.3.6.1.2.1.2'', ''1.3.6.1.2.1.20'']"
  by (simp add: minimizeOids_def HasPrefix_def)

lemma minimizeOidsLoop_keptFrom:
  "minimizeOidsLoop oids prevOid minimized = minimized @ keptFrom prevOid oids"
  by (induction oids arbitrary: prevOid minimized) auto

lemma minimizeOids_keptFrom: "minimizeOids oids = keptFrom '''' (sort oids)"
  by (simp add: minimizeOids_def minimizeOidsLoop_keptFrom)

lemma keptFrom_subset: "set (keptFrom prevOid oids) \<subseteq> set oids"
  by (induction oids arbitrary: prevOid) auto

lemma keptFrom_sorted: "sorted oids \<Longrightarrow> sorted (keptFrom prevOid oids)"
proof (induction oids arbitrary: prevOid)
  case Nil
  then show ?case by simp
next
  case (Cons oid oids)
  then show ?case using keptFrom_subset[of "oid @ ''.''" oids] by auto
qed

lemma keptFrom_idem: "keptFrom prevOid (keptFrom prevOid oids) = keptFrom prevOid oids"
  by (induction oids arbitrary: prevOid) auto

text \<open>An element the running prefix covers is not kept again later.\<close>

lemma keptFrom_covered:
  assumes "sorted oids" and "prevOid \<noteq> []" and "HasPrefix (x @ ''.'') prevOid"
    and "\<forall>y\<in>set oids. x \<le> y"
  shows "x \<notin> set (keptFrom prevOid oids)"
  using assms
proof (induction oids arbitrary: prevOid)
  case Nil
  then show ?case by simp
next
  case (Cons oid oids)
  show ?case
  proof (cases "HasPrefix (oid @ ''.'') prevOid")
    case True
    then show ?thesis using Cons by simp
  next
    case False
    then have ne: "oid \<noteq> x" using Cons.prems(3) by auto
    with Cons.prems(4) have "x < oid" by auto
    then have "x \<notin> set oids" using Cons.prems(1) by auto
    then show ?thesis using False ne keptFrom_subset[of "oid @ ''.''" oids] by auto
  qed
qed

lemma keptFrom_distinct: "sorted oids \<Longrightarrow> distinct (keptFrom prevOid oids)"
proof (induction oids arbitrary: prevOid)
  case Nil
  then show ?case by simp
next
  case (Cons oid oids)
  have "oid \<notin> set (keptFrom (oid @ ''.'') oids)"
    using keptFrom_covered[of oids "oid @ ''.''" oid] Cons.prems
    by (simp add: HasPrefix_def)
  then show ?case using Cons by simp
qed

text \<open>
  Repeated entries of the input do not matter: after sorting they are neighbours, and the
  second of two equal neighbours is never kept.
\<close>

lemma keptFrom_remdups_adj: "keptFrom prevOid (remdups_adj oids) = keptFrom prevOid oids"
  by (induction oids arbitrary: prevOid rule: remdups_adj.induct) (auto simp: HasPrefix_def)

lemma sorted_distinct_remdups_adj:
  "sorted xs \<Longrightarrow> distinct (remdups_adj (xs :: 'a :: linorder list))"
  by (induction xs rule: remdups_adj.induct) auto

lemma sort_remdups_adj_unique:
  assumes "set xs = set ys"
  shows "remdups_adj (sort xs) = remdups_adj (sort (ys :: 'a :: linorder list))"
proof (rule sorted_distinct_set_unique)
  show "sorted (remdups_adj (sort xs))" "sorted (remdups_adj (sort ys))"
    by (simp_all add: sorted_remdups_adj)
  show "distinct (remdups_adj (sort xs))" "distinct (remdups_adj (sort ys))"
    by (simp_all add: sorted_distinct_remdups_adj)
  show "set (remdups_adj (sort xs)) = set (remdups_adj (sort ys))"
    using assms by simp
qed

lemma minimizeOids_set_cong: "set xs = set ys \<Longrightarrow> minimizeOids xs = minimizeOids ys"
  using keptFrom_remdups_adj[of "''''" "sort xs"] keptFrom_remdups_adj[of "''''" "sort ys"]
    sort_remdups_adj_unique[of xs ys]
  by (simp add: minimizeOids_keptFrom)

lemma minimizeOids_sorted: "sorted (minimizeOids oids)"
  by (simp add: minimizeOids_keptFrom keptFrom_sorted)

lemma minimizeOids_distinct: "distinct (minimizeOids oids)"
  by (simp add: minimizeOids_keptFrom keptFrom_distinct)

text \<open>
  Claim C9. Minimizing twice is minimizing once. It holds for every list of strings, the
  valid OIDs among them: the second run meets the kept entries in the same order and
  compares each with the same \<open>prevOid\<close>.
\<close>

theorem minimizeOids_idempotent: "minimizeOids (minimizeOids oids) = minimizeOids oids"
  by (simp add: minimizeOids_keptFrom keptFrom_sorted sorted_sort_id keptFrom_idem)

theorem minimizeOids_idempotent_witness:
  "validOid ''1.3.6.1.2.1.2.2.1.10'' \<and> validOid ''1.3.6.1.2.1.2''
   \<and> minimizeOids (minimizeOids [''1.3.6.1.2.1.2.2.1.10'', ''1.3.6.1.2.1.2''])
       = [''1.3.6.1.2.1.2'']"
  using minimizeOids_idempotent[of "[''1.3.6.1.2.1.2.2.1.10'', ''1.3.6.1.2.1.2'']"]
  by (simp add: minimizeOids_def HasPrefix_def validOid_def isDigit_def)

subsection \<open>Antichain and coverage on valid OIDs\<close>

lemma between_prefix:
  fixes p s :: "'a :: linorder list"
  shows "p \<le> s \<Longrightarrow> s \<le> p @ t \<Longrightarrow> prefix p s"
proof (induction p arbitrary: s)
  case Nil
  then show ?case by simp
next
  case (Cons a p)
  then show ?case by (cases s) auto
qed

lemma append_le_cancel:
  fixes p :: "'a :: linorder list"
  shows "p @ u \<le> p @ t \<longleftrightarrow> u \<le> t"
  by (induction p) auto

lemma segments_chars:
  "c \<in> set s \<Longrightarrow> c = CHR ''.'' \<or> (\<exists>seg\<in>set (segments s). c \<in> set seg)"
proof (induction s)
  case Nil
  then show ?case by simp
next
  case (Cons a s)
  show ?case
  proof (cases "segments s")
    case Nil
    then show ?thesis using Cons by auto
  next
    case (Cons seg segs)
    then show ?thesis using Cons.IH Cons.prems by (cases "c = a") auto
  qed
qed

text \<open>No byte of a valid OID sorts before the dot.\<close>

lemma validOid_chars:
  assumes "validOid s" and "c \<in> set s"
  shows "CHR ''.'' \<le> c"
proof -
  from segments_chars[OF assms(2)]
  consider "c = CHR ''.''" | seg where "seg \<in> set (segments s)" "c \<in> set seg"
    by blast
  then show ?thesis
  proof cases
    case 1
    then show ?thesis by simp
  next
    case 2
    with assms(1) have "isDigit c" by (auto simp: validOid_def list_all_iff)
    then have "CHR ''0'' \<le> c" by (simp add: isDigit_def)
    moreover have "CHR ''.'' \<le> CHR ''0''" by simp
    ultimately show ?thesis by (rule order_trans[rotated])
  qed
qed

lemma dottedPrefix_refl: "dottedPrefix a a"
  by (simp add: dottedPrefix_def)

lemma dottedPrefix_cases: "dottedPrefix p q \<longleftrightarrow> q = p \<or> prefix (p @ ''.'') q"
  unfolding dottedPrefix_def prefix_snoc by auto

text \<open>In sorted order nothing stands between an OID and its descendants.\<close>

lemma dottedPrefix_between:
  assumes "p \<le> s" and "s \<le> q" and "dottedPrefix p q" and "\<forall>c\<in>set s. CHR ''.'' \<le> c"
  shows "dottedPrefix p s"
proof -
  from assms(3) consider "q = p" | w where "q = p @ ''.'' @ w"
    by (auto simp: dottedPrefix_cases prefix_def)
  then show ?thesis
  proof cases
    case 1
    with assms(1,2) have "s = p" by simp
    then show ?thesis by (simp add: dottedPrefix_refl)
  next
    case 2
    with assms(1,2) have "prefix p s" using between_prefix[of p s "''.'' @ w"] by simp
    then obtain u where u: "s = p @ u" by (auto simp: prefix_def)
    with assms(2) 2 have le: "u \<le> ''.'' @ w" by (simp add: append_le_cancel)
    show ?thesis
    proof (cases u)
      case Nil
      then show ?thesis using u by (simp add: dottedPrefix_refl)
    next
      case (Cons c u')
      with le have "c \<le> CHR ''.''" by auto
      moreover have "CHR ''.'' \<le> c" using assms(4) u Cons by simp
      ultimately have "c = CHR ''.''" by simp
      then show ?thesis using u Cons by (simp add: dottedPrefix_def)
    qed
  qed
qed

lemma dottedPrefix_le: "dottedPrefix a b \<Longrightarrow> a \<le> b"
proof -
  assume "dottedPrefix a b"
  then have "prefix a b" by (auto simp: dottedPrefix_cases prefix_def)
  then obtain u where "b = a @ u" by (auto simp: prefix_def)
  then show "a \<le> b" using append_le_cancel[of a "[]" u] by simp
qed

lemma keptFrom_not_covered:
  assumes "sorted (p # oids)" and "\<forall>s\<in>set oids. \<forall>c\<in>set s. CHR ''.'' \<le> c"
  shows "\<forall>y\<in>set (keptFrom (p @ ''.'') oids). \<not> dottedPrefix p y"
  using assms
proof (induction oids)
  case Nil
  then show ?case by simp
next
  case (Cons s oids)
  show ?case
  proof (cases "dottedPrefix p s")
    case True
    then show ?thesis using Cons by (simp add: dottedPrefix_def HasPrefix_def)
  next
    case False
    have "\<not> dottedPrefix p y" if "y \<in> set oids" for y
      using dottedPrefix_between[of p s y] False Cons.prems that by auto
    then show ?thesis using False keptFrom_subset[of "s @ ''.''" oids]
      by (auto simp: dottedPrefix_def HasPrefix_def)
  qed
qed

lemma keptFrom_antichain:
  assumes "sorted oids" and "\<forall>s\<in>set oids. \<forall>c\<in>set s. CHR ''.'' \<le> c"
  shows "antichain (keptFrom prevOid oids)"
  using assms
proof (induction oids arbitrary: prevOid)
  case Nil
  then show ?case by (simp add: antichain_def)
next
  case (Cons s oids)
  have ih: "antichain (keptFrom q oids)" for q using Cons by simp
  have down: "\<forall>y\<in>set (keptFrom (s @ ''.'') oids). \<not> dottedPrefix s y"
    using keptFrom_not_covered[of s oids] Cons.prems by simp
  have up: "\<not> dottedPrefix y s" if "y \<in> set (keptFrom (s @ ''.'') oids)" for y
  proof
    assume "dottedPrefix y s"
    then have "y \<le> s" by (rule dottedPrefix_le)
    moreover have "s \<le> y" using that keptFrom_subset[of "s @ ''.''" oids] Cons.prems(1) by auto
    ultimately have "y = s" by simp
    then show False using down that dottedPrefix_refl[of s] by blast
  qed
  show ?case using ih[of prevOid] ih[of "s @ ''.''"] down up
    by (auto simp: antichain_def)
qed

lemma keptFrom_covers:
  assumes "x \<in> set oids"
  shows "(prevOid \<noteq> [] \<and> HasPrefix (x @ ''.'') prevOid)
         \<or> (\<exists>y\<in>set (keptFrom prevOid oids). dottedPrefix y x)"
  using assms
proof (induction oids arbitrary: prevOid)
  case Nil
  then show ?case by simp
next
  case (Cons s oids)
  show ?case
  proof (cases "x = s")
    case True
    then show ?thesis by (auto simp: dottedPrefix_refl)
  next
    case False
    with Cons.prems have x: "x \<in> set oids" by simp
    show ?thesis
    proof (cases "\<not> HasPrefix (s @ ''.'') prevOid \<or> prevOid = ''''")
      case True
      then show ?thesis using Cons.IH[OF x, of "s @ ''.''"]
        by (auto simp: dottedPrefix_def HasPrefix_def)
    next
      case False
      then show ?thesis using Cons.IH[OF x, of prevOid] by auto
    qed
  qed
qed

lemma antichain_unique_ancestor:
  assumes "antichain ys" and "a \<in> set ys" and "b \<in> set ys"
    and "dottedPrefix a x" and "dottedPrefix b x"
  shows "a = b"
proof (rule ccontr)
  assume ne: "a \<noteq> b"
  from assms(4,5) have "prefix (a @ ''.'') (b @ ''.'') \<or> prefix (b @ ''.'') (a @ ''.'')"
    unfolding dottedPrefix_def by (rule prefix_same_cases)
  then have "dottedPrefix a b \<or> dottedPrefix b a" by (simp add: dottedPrefix_def)
  then show False using assms(1-3) ne by (auto simp: antichain_def)
qed

text \<open>
  Claim C1. On valid dotted-decimal OIDs the output of \<open>minimizeOids\<close> is an antichain
  under the dotted-prefix order, and every input OID that is not in the output has exactly
  one output element as a dotted-prefix ancestor.
\<close>

theorem minimizeOids_antichain_cover:
  assumes "\<forall>s\<in>set oids. validOid s"
  shows "antichain (minimizeOids oids)
       \<and> (\<forall>x\<in>set oids. x \<notin> set (minimizeOids oids) \<longrightarrow>
            (\<exists>!y. y \<in> set (minimizeOids oids) \<and> dottedPrefix y x))"
proof -
  have chars: "\<forall>s\<in>set (sort oids). \<forall>c\<in>set s. CHR ''.'' \<le> c"
    using assms validOid_chars by auto
  have anti: "antichain (minimizeOids oids)"
    using keptFrom_antichain[of "sort oids" "''''"] chars by (simp add: minimizeOids_keptFrom)
  have "\<exists>!y. y \<in> set (minimizeOids oids) \<and> dottedPrefix y x" if "x \<in> set oids" for x
  proof -
    from keptFrom_covers[of x "sort oids" "''''"] that
    obtain y where "y \<in> set (minimizeOids oids)" "dottedPrefix y x"
      by (auto simp: minimizeOids_keptFrom)
    then show ?thesis using antichain_unique_ancestor[OF anti] by blast
  qed
  with anti show ?thesis by blast
qed

theorem minimizeOids_antichain_cover_witness:
  "list_all validOid [''1.3.6.1.2.1.2.2.1.10'', ''1.3.6.1.4.1'', ''1.3.6.1.2.1.2'']
   \<and> minimizeOids [''1.3.6.1.2.1.2.2.1.10'', ''1.3.6.1.4.1'', ''1.3.6.1.2.1.2'']
       = [''1.3.6.1.2.1.2'', ''1.3.6.1.4.1'']
   \<and> antichain (minimizeOids [''1.3.6.1.2.1.2.2.1.10'', ''1.3.6.1.4.1'', ''1.3.6.1.2.1.2''])
   \<and> (\<exists>!y. y \<in> set (minimizeOids [''1.3.6.1.2.1.2.2.1.10'', ''1.3.6.1.4.1'', ''1.3.6.1.2.1.2''])
            \<and> dottedPrefix y ''1.3.6.1.2.1.2.2.1.10'')"
proof -
  let ?L = "[''1.3.6.1.2.1.2.2.1.10'', ''1.3.6.1.4.1'', ''1.3.6.1.2.1.2'']"
  have v: "\<forall>s\<in>set ?L. validOid s" by (simp add: validOid_def isDigit_def)
  have m: "minimizeOids ?L = [''1.3.6.1.2.1.2'', ''1.3.6.1.4.1'']"
    by (simp add: minimizeOids_def HasPrefix_def)
  have x: "''1.3.6.1.2.1.2.2.1.10'' \<in> set ?L" by simp
  have n: "''1.3.6.1.2.1.2.2.1.10'' \<notin> set (minimizeOids ?L)" unfolding m by simp
  from minimizeOids_antichain_cover[OF v] x n v m show ?thesis
    by (simp only: list_all_iff) blast
qed

section \<open>The module generator: what it returns\<close>

lemmas gen_defs = generateConfigModule_def nodeMetric_def metricType_def metricAccess_def
  applyOverrides_def applyOverride_def keys_def minimizeOids_def HasPrefix_def
  invalidLabelCharRE_def List.map_filter_def

text \<open>
  Claim C2, amended. The name index resolves \<open>ifInOctets\<close> and its OID to the node
  \<open>ifInOctets\<close> (type COUNTER, access read-write, indexes \<open>[ifIndex]\<close>) with no
  node below it, and \<open>ifIndex\<close> to a node of type INTEGER; the module walks
  \<open>ifInOctets\<close> and has no lookups or overrides. The generator returns one metric,
  \<open>ifInOctets\<close> of type counter with the single index \<open>ifIndex\<close> of type gauge,
  and the walk list is the OID of \<open>ifInOctets\<close>. The walk of line 208 takes in every
  node below the walk root: where \<open>ifIndex\<close> is the child of \<open>ifInOctets\<close> it is
  a second metric.
\<close>

theorem generateConfigModule_end_to_end:
  assumes "nameToNode ''ifInOctets'' = Some n"
    and "nameToNode ''1.3.6.1.2.1.2.2.1.10'' = Some n"
    and "Oid (fieldsOf n) = ''1.3.6.1.2.1.2.2.1.10''"
    and "Label (fieldsOf n) = ''ifInOctets''"
    and "Type (fieldsOf n) = ''COUNTER''"
    and "Access (fieldsOf n) = ''ACCESS_READWRITE''"
    and "Indexes (fieldsOf n) = [''ifIndex'']"
    and "Children n = []"
    and "nameToNode ''ifIndex'' = Some i"
    and "Type (fieldsOf i) = ''INTEGER''"
  shows "generateConfigModule \<lparr>Walk = [''ifInOctets''], Lookups = [], Overrides = []\<rparr> node nameToNode
    = Inr \<lparr>Module_Walk = [''1.3.6.1.2.1.2.2.1.10''],
           Module_Metrics =
             [\<lparr>Metric_Name = ''ifInOctets'',
               Metric_Oid = ''1.3.6.1.2.1.2.2.1.10'',
               Metric_Type = ''counter'',
               Metric_Help = Description (fieldsOf n) @ '' - 1.3.6.1.2.1.2.2.1.10'',
               Metric_Indexes =
                 [\<lparr>Index_Labelname = ''ifIndex'', Index_Type = ''gauge'',
                   Index_FixedSize = FixedSize (fieldsOf i)\<rparr>],
               Metric_Lookups = [],
               Metric_RegexpExtracts = None\<rparr>]\<rparr>"
proof -
  have w: "WalkNodes n = [n]" using assms(8) by (cases n) simp
  show ?thesis
    using assms(1-7,9,10)
    by (simp add: generateConfigModule_def nodeMetric_def metricType_def metricAccess_def
      applyOverrides_def keys_def minimizeOids_def HasPrefix_def List.map_filter_def invalidLabelCharRE_def w)
qed

theorem generateConfigModule_end_to_end_witness:
  "generateConfigModule \<lparr>Walk = [''ifInOctets''], Lookups = [], Overrides = []\<rparr> ifIndex ifNames
  = Inr (\<lparr>Module_Walk = [''1.3.6.1.2.1.2.2.1.10''], Module_Metrics = [
      \<lparr>Metric_Name = ''ifInOctets'', Metric_Oid = ''1.3.6.1.2.1.2.2.1.10'', Metric_Type = ''counter'',
       Metric_Help = ''The total number of octets received on the interface - 1.3.6.1.2.1.2.2.1.10'',
       Metric_Indexes = [\<lparr>Index_Labelname = ''ifIndex'', Index_Type = ''gauge'', Index_FixedSize = 0\<rparr>],
       Metric_Lookups = [], Metric_RegexpExtracts = None\<rparr>]\<rparr> :: nat config_Module)"
  using generateConfigModule_end_to_end[of ifNames ifInOctets ifIndex ifIndex, where ?'a = nat]
  by (simp add: ifNames_def ifInOctets_def ifIndex_def)

lemma resolveWalk_unresolved:
  assumes "oid \<in> set oids" and "nameToNode oid = None"
  shows "\<exists>oid'\<in>set oids. nameToNode oid' = None
           \<and> resolveWalk nameToNode oids = Inl (CannotFindOid oid')"
  using assms
proof (induction oids)
  case Nil
  then show ?case by simp
next
  case (Cons x oids)
  show ?case
  proof (cases "nameToNode x")
    case None
    then show ?thesis by auto
  next
    case (Some node)
    with Cons.prems have "oid \<in> set oids" by auto
    from Cons.IH[OF this Cons.prems(2)] Some show ?thesis by auto
  qed
qed

text \<open>
  Claim C5. If an entry of the walk list does not resolve in the name index, the generator
  returns no module: it ends with the fatal error for the first such entry.
\<close>

theorem generateConfigModule_unresolved_walk:
  assumes "oid \<in> set (Walk cfg)" and "nameToNode oid = None"
  shows "\<exists>oid'\<in>set (Walk cfg). nameToNode oid' = None
           \<and> generateConfigModule cfg node nameToNode = Inl (CannotFindOid oid')"
  using resolveWalk_unresolved[of oid "Walk cfg" nameToNode] assms
  by (auto simp: generateConfigModule_def)

theorem generateConfigModule_unresolved_walk_witness:
  "generateConfigModule \<lparr>Walk = [''doesNotExist''], Lookups = [], Overrides = []\<rparr> ifInOctets ifNames
     = (Inl (CannotFindOid ''doesNotExist'') :: error + nat config_Module)"
  using generateConfigModule_unresolved_walk[of "''doesNotExist''"
      "\<lparr>Walk = [''doesNotExist''], Lookups = [], Overrides = []\<rparr> :: nat ModuleConfig" ifNames ifInOctets]
  by (simp add: ifNames_def)

lemma lookupIndexes_unknown:
  assumes "nameToNode (NewIndex lookup) = None"
    and "\<exists>index\<in>set indexes. Index_Labelname index = OldIndex lookup"
  shows "lookupIndexes nameToNode lookup indexes = Inl (UnknownIndex (NewIndex lookup))"
  using assms(2)
proof (induction indexes)
  case Nil
  then show ?case by simp
next
  case (Cons index indexes)
  show ?case
  proof (cases "Index_Labelname index = OldIndex lookup")
    case True
    then show ?thesis using assms(1) by simp
  next
    case False
    with Cons.prems have "\<exists>index\<in>set indexes. Index_Labelname index = OldIndex lookup" by simp
    from Cons.IH[OF this] False show ?thesis by simp
  qed
qed

lemma lookupIndexes_no_match:
  assumes "\<not> (\<exists>index\<in>set indexes. Index_Labelname index = OldIndex lookup)"
  shows "lookupIndexes nameToNode lookup indexes = Inr (indexes, [], [])"
  using assms by (induction indexes) auto

lemma lookupMetrics_no_match:
  assumes "\<not> (\<exists>metric\<in>set metrics. \<exists>index\<in>set (Metric_Indexes metric).
           Index_Labelname index = OldIndex lookup)"
  shows "lookupMetrics nameToNode lookup metrics = Inr (metrics, [])"
  using assms
proof (induction metrics)
  case Nil
  then show ?case by simp
next
  case (Cons metric metrics)
  from Cons.prems
  have a: "\<not> (\<exists>index\<in>set (Metric_Indexes metric). Index_Labelname index = OldIndex lookup)"
    and b: "\<not> (\<exists>metric\<in>set metrics. \<exists>index\<in>set (Metric_Indexes metric).
           Index_Labelname index = OldIndex lookup)" by simp_all
  from lookupIndexes_no_match[OF a, of nameToNode] Cons.IH[OF b] show ?case by simp
qed

lemma lookupMetrics_unknown:
  assumes "nameToNode (NewIndex lookup) = None"
    and "\<exists>metric\<in>set metrics. \<exists>index\<in>set (Metric_Indexes metric).
           Index_Labelname index = OldIndex lookup"
  shows "lookupMetrics nameToNode lookup metrics = Inl (UnknownIndex (NewIndex lookup))"
  using assms(2)
proof (induction metrics)
  case Nil
  then show ?case by simp
next
  case (Cons metric metrics)
  show ?case
  proof (cases "\<exists>index\<in>set (Metric_Indexes metric). Index_Labelname index = OldIndex lookup")
    case True
    with lookupIndexes_unknown[of nameToNode lookup "Metric_Indexes metric"] assms(1)
    show ?thesis by simp
  next
    case False
    with Cons.prems have "\<exists>metric\<in>set metrics. \<exists>index\<in>set (Metric_Indexes metric).
           Index_Labelname index = OldIndex lookup" by simp
    from Cons.IH[OF this] lookupIndexes_no_match[of "Metric_Indexes metric" lookup nameToNode] False
    show ?thesis by simp
  qed
qed

lemma applyLookups_append:
  "applyLookups nameToNode (before @ after) st =
     (case applyLookups nameToNode before st of
        Inl e \<Rightarrow> Inl e
      | Inr st' \<Rightarrow> applyLookups nameToNode after st')"
proof (induction before arbitrary: st)
  case Nil
  then show ?case by simp
next
  case (Cons lookup before)
  then show ?case by (cases st) (simp split: sum.splits prod.splits)
qed

lemma applyOverrides_map:
  "applyOverrides overrides metrics = map (fold applyOverride overrides) metrics"
  unfolding applyOverrides_def
  by (induction overrides arbitrary: metrics) simp_all

lemma applyOverride_frame:
  "applyOverride ov metric\<lparr>Metric_RegexpExtracts := r\<rparr> = metric\<lparr>Metric_RegexpExtracts := r\<rparr>"
  by (simp add: applyOverride_def)

lemma fold_applyOverride_frame:
  "fold applyOverride overrides metric\<lparr>Metric_RegexpExtracts := r\<rparr>
     = metric\<lparr>Metric_RegexpExtracts := r\<rparr>"
proof (induction overrides arbitrary: metric)
  case Nil
  then show ?case by simp
next
  case (Cons ov overrides)
  have "fold applyOverride overrides (applyOverride ov metric)\<lparr>Metric_RegexpExtracts := r\<rparr>
          = applyOverride ov metric\<lparr>Metric_RegexpExtracts := r\<rparr>"
    by (rule Cons.IH)
  then show ?case by (simp add: applyOverride_frame)
qed

lemma fold_applyOverride_Indexes:
  "Metric_Indexes (fold applyOverride overrides metric) = Metric_Indexes metric"
proof -
  have "Metric_Indexes (fold applyOverride overrides metric\<lparr>Metric_RegexpExtracts := None\<rparr>)
          = Metric_Indexes (metric\<lparr>Metric_RegexpExtracts := None\<rparr>)"
    by (simp only: fold_applyOverride_frame)
  then show ?thesis by simp
qed

text \<open>
  Claim C4, amended. A lookup rule whose \<open>newIndex\<close> does not resolve ends the run with
  the fatal error \<open>Unknown index\<close> when its turn comes and some metric has an index
  labelled with its \<open>oldIndex\<close>: the metrics then are those of the module the rules
  before it give.
\<close>

theorem generateConfigModule_unknown_lookup:
  assumes "Lookups cfg = before @ lookup # after"
    and "nameToNode (NewIndex lookup) = None"
    and "generateConfigModule (cfg\<lparr>Lookups := before\<rparr>) node nameToNode = Inr out"
    and "\<exists>metric\<in>set (Module_Metrics out). \<exists>index\<in>set (Metric_Indexes metric).
           Index_Labelname index = OldIndex lookup"
  shows "generateConfigModule cfg node nameToNode = Inl (UnknownIndex (NewIndex lookup))"
proof -
  from assms(3) obtain toWalk metrics needToWalk metrics' needToWalk' where
    r: "resolveWalk nameToNode (Walk cfg) = Inr toWalk"
    and w: "walkLoop nameToNode (minimizeOids toWalk) ([], []) = Inr (metrics, needToWalk)"
    and l: "applyLookups nameToNode before (metrics, needToWalk) = Inr (metrics', needToWalk')"
    and out: "Module_Metrics out = applyOverrides (Overrides cfg) metrics'"
    by (auto simp: generateConfigModule_def split: sum.splits prod.splits)
  from assms(4) have "\<exists>metric\<in>set metrics'. \<exists>index\<in>set (Metric_Indexes metric).
           Index_Labelname index = OldIndex lookup"
    by (auto simp: out applyOverrides_map fold_applyOverride_Indexes)
  with lookupMetrics_unknown[of nameToNode lookup metrics'] assms(2)
  have "applyLookups nameToNode (lookup # after) (metrics', needToWalk')
          = Inl (UnknownIndex (NewIndex lookup))" by simp
  then show ?thesis
    by (simp add: generateConfigModule_def r w assms(1) applyLookups_append l)
qed

theorem generateConfigModule_unknown_lookup_witness:
  "generateConfigModule
       \<lparr>Walk = [''ifInOctets''],
        Lookups = [\<lparr>OldIndex = ''ifIndex'', NewIndex = ''doesNotExist''\<rparr>],
        Overrides = []\<rparr> ifIndex ifNames
     = (Inl (UnknownIndex ''doesNotExist'') :: error + nat config_Module)"
proof -
  let ?cfg = "\<lparr>Walk = [''ifInOctets''],
        Lookups = [\<lparr>OldIndex = ''ifIndex'', NewIndex = ''doesNotExist''\<rparr>],
        Overrides = []\<rparr> :: nat ModuleConfig"
  let ?out = "\<lparr>Module_Walk = [''1.3.6.1.2.1.2.2.1.10''], Module_Metrics = [
      \<lparr>Metric_Name = ''ifInOctets'', Metric_Oid = ''1.3.6.1.2.1.2.2.1.10'', Metric_Type = ''counter'',
       Metric_Help = ''The total number of octets received on the interface - 1.3.6.1.2.1.2.2.1.10'',
       Metric_Indexes = [\<lparr>Index_Labelname = ''ifIndex'', Index_Type = ''gauge'', Index_FixedSize = 0\<rparr>],
       Metric_Lookups = [], Metric_RegexpExtracts = None\<rparr>]\<rparr> :: nat config_Module"
  have 1: "Lookups ?cfg = [] @ \<lparr>OldIndex = ''ifIndex'', NewIndex = ''doesNotExist''\<rparr> # []" by simp
  have 2: "ifNames (NewIndex \<lparr>OldIndex = ''ifIndex'', NewIndex = ''doesNotExist''\<rparr>) = None"
    by (simp add: ifNames_def)
  have 3: "generateConfigModule (?cfg\<lparr>Lookups := []\<rparr>) ifIndex ifNames = Inr ?out"
    by (simp add: gen_defs ifNames_def ifInOctets_def ifIndex_def)
  have 4: "\<exists>metric\<in>set (Module_Metrics ?out). \<exists>index\<in>set (Metric_Indexes metric).
           Index_Labelname index = OldIndex \<lparr>OldIndex = ''ifIndex'', NewIndex = ''doesNotExist''\<rparr>"
    by simp
  from generateConfigModule_unknown_lookup[OF 1 2 3 4] show ?thesis by simp
qed

text \<open>
  Against claim C4 as stated: the rule's \<open>newIndex\<close> does not resolve, no index is
  labelled \<open>ifDescr\<close>, and the generator returns a module.
\<close>

theorem generateConfigModule_unmatched_lookup:
  "ifNames ''doesNotExist'' = None
   \<and> generateConfigModule
       \<lparr>Walk = [''ifInOctets''],
        Lookups = [\<lparr>OldIndex = ''ifDescr'', NewIndex = ''doesNotExist''\<rparr>],
        Overrides = []\<rparr> ifIndex ifNames
     = Inr (\<lparr>Module_Walk = [''1.3.6.1.2.1.2.2.1.10''], Module_Metrics = [
      \<lparr>Metric_Name = ''ifInOctets'', Metric_Oid = ''1.3.6.1.2.1.2.2.1.10'', Metric_Type = ''counter'',
       Metric_Help = ''The total number of octets received on the interface - 1.3.6.1.2.1.2.2.1.10'',
       Metric_Indexes = [\<lparr>Index_Labelname = ''ifIndex'', Index_Type = ''gauge'', Index_FixedSize = 0\<rparr>],
       Metric_Lookups = [], Metric_RegexpExtracts = None\<rparr>]\<rparr> :: nat config_Module)"
  by (simp add: gen_defs ifNames_def ifInOctets_def ifIndex_def)

text \<open>
  A rule whose \<open>oldIndex\<close> labels no index when its turn comes is skipped, whether
  its \<open>newIndex\<close> resolves or not: the generator returns what it returns for the
  configuration without the rule.
\<close>

lemma generateConfigModule_skips_lookup:
  assumes "Lookups cfg = before @ lookup # after"
    and "generateConfigModule (cfg\<lparr>Lookups := before\<rparr>) node nameToNode = Inr out"
    and "\<not> (\<exists>metric\<in>set (Module_Metrics out). \<exists>index\<in>set (Metric_Indexes metric).
           Index_Labelname index = OldIndex lookup)"
  shows "generateConfigModule cfg node nameToNode
       = generateConfigModule (cfg\<lparr>Lookups := before @ after\<rparr>) node nameToNode"
proof -
  from assms(2) obtain toWalk metrics needToWalk metrics' needToWalk' where
    r: "resolveWalk nameToNode (Walk cfg) = Inr toWalk"
    and w: "walkLoop nameToNode (minimizeOids toWalk) ([], []) = Inr (metrics, needToWalk)"
    and l: "applyLookups nameToNode before (metrics, needToWalk) = Inr (metrics', needToWalk')"
    and out: "Module_Metrics out = applyOverrides (Overrides cfg) metrics'"
    by (auto simp: generateConfigModule_def split: sum.splits prod.splits)
  from assms(3) have "\<not> (\<exists>metric\<in>set metrics'. \<exists>index\<in>set (Metric_Indexes metric).
           Index_Labelname index = OldIndex lookup)"
    by (auto simp: out applyOverrides_map fold_applyOverride_Indexes)
  from lookupMetrics_no_match[OF this, of nameToNode]
  have step: "applyLookups nameToNode (lookup # after) (metrics', needToWalk')
          = applyLookups nameToNode after (metrics', needToWalk')" by simp
  show ?thesis
    by (simp add: generateConfigModule_def r w assms(1) applyLookups_append l step
          del: applyLookups.simps split: sum.splits prod.splits)
qed

lemma fold_applyOverride:
  "fold applyOverride overrides metric =
     (if matching metric overrides = [] then metric
      else metric\<lparr>Metric_RegexpExtracts := RegexpExtracts (snd (last (matching metric overrides)))\<rparr>)"
proof (induction overrides rule: rev_induct)
  case Nil
  then show ?case by (simp add: matching_def)
next
  case (snoc ov overrides)
  then show ?case by (simp add: matching_def applyOverride_def)
qed

text \<open>
  Claim C7, amended. The override step keeps the length and the order of the metric list
  and every field of every metric but the regex-extraction directives. A metric no key
  matches keeps its directives; a metric some key matches has the directives of the
  matching entry visited last.
\<close>

theorem applyOverrides_annotates:
  "length (applyOverrides overrides metrics) = length metrics \<and>
   (\<forall>i<length metrics.
      (applyOverrides overrides metrics ! i)
          \<lparr>Metric_RegexpExtracts := Metric_RegexpExtracts (metrics ! i)\<rparr> = metrics ! i
      \<and> Metric_RegexpExtracts (applyOverrides overrides metrics ! i) =
          (if matching (metrics ! i) overrides = [] then Metric_RegexpExtracts (metrics ! i)
           else RegexpExtracts (snd (last (matching (metrics ! i) overrides)))))"
  by (simp add: applyOverrides_map fold_applyOverride)

theorem applyOverrides_annotates_witness:
  "applyOverrides [(''ifInOctets'', \<lparr>RegexpExtracts = Some 1\<rparr>), (''ifOutOctets'', \<lparr>RegexpExtracts = Some 2\<rparr>)]
       [ifInOctetsMetric] = [ifInOctetsMetric\<lparr>Metric_RegexpExtracts := Some 1\<rparr>]"
  using applyOverrides_annotates[of
      "[(''ifInOctets'', \<lparr>RegexpExtracts = Some 1\<rparr>), (''ifOutOctets'', \<lparr>RegexpExtracts = Some 2\<rparr>)]"
      "[ifInOctetsMetric]"]
  by (simp add: applyOverrides_def applyOverride_def ifInOctetsMetric_def)

text \<open>
  Against claim C7 as stated: one key is the name of the metric and another is its OID.
  In either order of the visit one of the two matching overrides is not on the metric.
\<close>

theorem applyOverrides_two_keys:
  "Metric_RegexpExtracts (hd (applyOverrides
       [(''ifInOctets'', \<lparr>RegexpExtracts = Some 1\<rparr>),
        (''1.3.6.1.2.1.2.2.1.10'', \<lparr>RegexpExtracts = Some 2\<rparr>)] [ifInOctetsMetric])) = Some 2
   \<and> Metric_RegexpExtracts (hd (applyOverrides
       [(''1.3.6.1.2.1.2.2.1.10'', \<lparr>RegexpExtracts = Some 2\<rparr>),
        (''ifInOctets'', \<lparr>RegexpExtracts = Some 1\<rparr>)] [ifInOctetsMetric])) = Some 1"
  by (simp add: applyOverrides_def applyOverride_def ifInOctetsMetric_def)

lemma generateConfigModule_Walk:
  assumes "generateConfigModule cfg node nameToNode = Inr out"
  shows "\<exists>needToWalk. \<forall>oids. set oids = set needToWalk \<longrightarrow> Module_Walk out = minimizeOids oids"
proof -
  from assms obtain needToWalk where w: "Module_Walk out = minimizeOids (keys needToWalk)"
    by (auto simp: generateConfigModule_def split: sum.splits prod.splits)
  have "Module_Walk out = minimizeOids oids" if "set oids = set needToWalk" for oids
    unfolding w using that minimizeOids_set_cong[of "keys needToWalk" oids]
    by (simp add: keys_def)
  then show ?thesis by blast
qed

text \<open>
  Claim C10. For every list of strings the output of \<open>minimizeOids\<close> is sorted and has
  no entry twice, and it depends on the set of the inputs only, not on their order or
  repetition; so the walk list of every module the generator returns is sorted, without
  duplicates, and the same in whatever order \<open>range\<close> gives the keys of
  \<open>needToWalk\<close>.
\<close>

theorem minimizeOids_sorted_distinct:
  "sorted (minimizeOids oids) \<and> distinct (minimizeOids oids)
   \<and> (\<forall>oids'. set oids' = set oids \<longrightarrow> minimizeOids oids' = minimizeOids oids)
   \<and> (\<forall>cfg node nameToNode out.
        generateConfigModule cfg node nameToNode = Inr (out :: 'r config_Module) \<longrightarrow>
          sorted (Module_Walk out) \<and> distinct (Module_Walk out)
          \<and> (\<exists>needToWalk. \<forall>oids'. set oids' = set needToWalk \<longrightarrow>
                Module_Walk out = minimizeOids oids'))"
proof -
  have "sorted (Module_Walk out) \<and> distinct (Module_Walk out)
        \<and> (\<exists>needToWalk. \<forall>oids'. set oids' = set needToWalk \<longrightarrow>
                Module_Walk out = minimizeOids oids')"
    if g: "generateConfigModule cfg node nameToNode = Inr out"
    for cfg node nameToNode and out :: "'r config_Module"
  proof -
    from generateConfigModule_Walk[OF g] obtain needToWalk where
      n: "\<forall>oids'. set oids' = set needToWalk \<longrightarrow> Module_Walk out = minimizeOids oids'"
      by blast
    then have "Module_Walk out = minimizeOids needToWalk" by simp
    then have "sorted (Module_Walk out) \<and> distinct (Module_Walk out)"
      by (simp add: minimizeOids_sorted minimizeOids_distinct)
    with n show ?thesis by blast
  qed
  then show ?thesis
    using minimizeOids_sorted minimizeOids_distinct minimizeOids_set_cong by blast
qed

theorem minimizeOids_sorted_distinct_witness:
  "minimizeOids [''1.3.6.1.4.1'', ''1.3.6.1.2.1.2'', ''1.3.6.1.4.1'', ''1.3.6.1.2.1.2.2'']
      = [''1.3.6.1.2.1.2'', ''1.3.6.1.4.1'']
   \<and> sorted (minimizeOids [''1.3.6.1.4.1'', ''1.3.6.1.2.1.2'', ''1.3.6.1.4.1'', ''1.3.6.1.2.1.2.2''])
   \<and> distinct (minimizeOids [''1.3.6.1.4.1'', ''1.3.6.1.2.1.2'', ''1.3.6.1.4.1'', ''1.3.6.1.2.1.2.2''])
   \<and> minimizeOids [''1.3.6.1.2.1.2.2'', ''1.3.6.1.2.1.2'', ''1.3.6.1.4.1'']
       = minimizeOids [''1.3.6.1.4.1'', ''1.3.6.1.2.1.2'', ''1.3.6.1.4.1'', ''1.3.6.1.2.1.2.2'']
   \<and> map_sum id Module_Walk
        (generateConfigModule \<lparr>Walk = [''ifInOctets'', ''ifIndex''], Lookups = [], Overrides = []\<rparr>
           ifIndex ifNames :: error + nat config_Module)
       = Inr [''1.3.6.1.2.1.2.2.1.1'', ''1.3.6.1.2.1.2.2.1.10'']
   \<and> sorted [''1.3.6.1.2.1.2.2.1.1'', ''1.3.6.1.2.1.2.2.1.10'']
   \<and> distinct [''1.3.6.1.2.1.2.2.1.1'', ''1.3.6.1.2.1.2.2.1.10'']"
proof -
  let ?L = "[''1.3.6.1.4.1'', ''1.3.6.1.2.1.2'', ''1.3.6.1.4.1'', ''1.3.6.1.2.1.2.2'']"
  let ?L' = "[''1.3.6.1.2.1.2.2'', ''1.3.6.1.2.1.2'', ''1.3.6.1.4.1'']"
  let ?cfg = "\<lparr>Walk = [''ifInOctets'', ''ifIndex''], Lookups = [], Overrides = []\<rparr> :: nat ModuleConfig"
  have s: "set ?L' = set ?L" by auto
  have m: "minimizeOids ?L = [''1.3.6.1.2.1.2'', ''1.3.6.1.4.1'']"
    by (simp add: minimizeOids_def HasPrefix_def)
  obtain out where g: "generateConfigModule ?cfg ifIndex ifNames = Inr out"
    and w: "Module_Walk out = [''1.3.6.1.2.1.2.2.1.1'', ''1.3.6.1.2.1.2.2.1.10'']"
    by (simp add: gen_defs ifNames_def ifInOctets_def ifIndex_def)
  note t = minimizeOids_sorted_distinct[of ?L, where ?'r = nat]
  from t s m have 1: "sorted (minimizeOids ?L) \<and> distinct (minimizeOids ?L)
      \<and> minimizeOids ?L' = minimizeOids ?L" by metis
  from t g have "sorted (Module_Walk out) \<and> distinct (Module_Walk out)" by blast
  with w have 2: "sorted [''1.3.6.1.2.1.2.2.1.1'', ''1.3.6.1.2.1.2.2.1.10'']
      \<and> distinct [''1.3.6.1.2.1.2.2.1.1'', ''1.3.6.1.2.1.2.2.1.10'']" by simp
  from g w have 3: "map_sum id Module_Walk (generateConfigModule ?cfg ifIndex ifNames)
      = Inr [''1.3.6.1.2.1.2.2.1.1'', ''1.3.6.1.2.1.2.2.1.10'']" by simp
  from m 1 2 3 show ?thesis by blast
qed

text \<open>
  Claim C3 at an index label with a hyphen: the name of the metric is sanitized, the
  labelname of its index is the label as it stands in the tree.
\<close>

theorem generateConfigModule_index_labelname_unsanitized:
  "generateConfigModule \<lparr>Walk = [''slot-Temp''], Lookups = [], Overrides = []\<rparr> slotIndex slotNames
     = Inr (\<lparr>Module_Walk = [''1.3.6.1.4.1.9.1.2''], Module_Metrics = [
      \<lparr>Metric_Name = ''slot_Temp'', Metric_Oid = ''1.3.6.1.4.1.9.1.2'', Metric_Type = ''gauge'',
       Metric_Help = '' - 1.3.6.1.4.1.9.1.2'',
       Metric_Indexes = [\<lparr>Index_Labelname = ''slot-Index'', Index_Type = ''gauge'', Index_FixedSize = 0\<rparr>],
       Metric_Lookups = [], Metric_RegexpExtracts = None\<rparr>]\<rparr> :: nat config_Module)
   \<and> \<not> list_all labelChar ''slot-Index''"
  by (simp add: gen_defs slotNames_def slotIndex_def slotTemp_def labelChar_def)

section \<open>PrepareTree: augmentation\<close>

lemma nodeAt_updateAt_same:
  "nodeAt (updateAt p f t) p = map_option f (nodeAt t p)"
  by (induction p arbitrary: t) auto

lemma fieldsAt_updateAt:
  "fieldsAt (updateAt p (mapFields g) t) q
     = (if q = p then map_option g (fieldsAt t q) else fieldsAt t q)"
proof (induction p arbitrary: t q)
  case Nil
  show ?case by (cases q) (auto simp: fieldsAt_def mapFields_def)
next
  case (Cons i p)
  show ?case
  proof (cases q)
    case Nil
    then show ?thesis by (simp add: fieldsAt_def)
  next
    case (Cons j q')
    show ?thesis
    proof (cases "i < length (Children t)")
      case True
      show ?thesis
      proof (cases "j = i")
        case True
        with \<open>i < length (Children t)\<close> Cons.IH[of "Children t ! i" q'] Cons show ?thesis
          by (simp add: fieldsAt_def)
      next
        case False
        with \<open>i < length (Children t)\<close> Cons show ?thesis by (simp add: fieldsAt_def)
      qed
    next
      case False
      then show ?thesis using Cons by (auto simp: fieldsAt_def)
    qed
  qed
qed

lemma arityAt_updateAt:
  "arityAt (updateAt p (mapFields g) t) q = arityAt t q"
proof (induction p arbitrary: t q)
  case Nil
  show ?case by (cases q) (auto simp: arityAt_def mapFields_def)
next
  case (Cons i p)
  show ?case
  proof (cases q)
    case Nil
    then show ?thesis by (simp add: arityAt_def)
  next
    case (Cons j q')
    show ?thesis
    proof (cases "i < length (Children t)")
      case True
      show ?thesis
      proof (cases "j = i")
        case True
        with \<open>i < length (Children t)\<close> Cons.IH[of "Children t ! i" q'] Cons show ?thesis
          by (simp add: arityAt_def)
      next
        case False
        with \<open>i < length (Children t)\<close> Cons show ?thesis by (simp add: arityAt_def)
      qed
    next
      case False
      then show ?thesis using Cons by (auto simp: arityAt_def)
    qed
  qed
qed

lemma WalkOrder_valid:
  "p \<in> set (WalkOrder t) \<longleftrightarrow> nodeAt t p \<noteq> None"
  "p \<in> set (WalkOrderFrom i cs) \<longleftrightarrow>
     (\<exists>k q. p = (i + k) # q \<and> k < length cs \<and> nodeAt (cs ! k) q \<noteq> None)"
proof (induction t and i cs arbitrary: p and p rule: WalkOrder_WalkOrderFrom.induct)
  case (1 d cs)
  show ?case
  proof (cases p)
    case Nil
    then show ?thesis by simp
  next
    case (Cons j q)
    then show ?thesis using 1[of p] by auto
  qed
next
  case (2 i)
  then show ?case by simp
next
  case (3 i c cs)
  show ?case
  proof
    assume "p \<in> set (WalkOrderFrom i (c # cs))"
    then consider q where "p = i # q" "q \<in> set (WalkOrder c)" | "p \<in> set (WalkOrderFrom (Suc i) cs)"
      by auto
    then show "\<exists>k q. p = (i + k) # q \<and> k < length (c # cs) \<and> nodeAt ((c # cs) ! k) q \<noteq> None"
    proof cases
      case 1
      then have "p = (i + 0) # q \<and> 0 < length (c # cs) \<and> nodeAt ((c # cs) ! 0) q \<noteq> None"
        using 3(1)[of q] by simp
      then show ?thesis by blast
    next
      case 2
      then obtain k q where "p = (Suc i + k) # q" "k < length cs" "nodeAt (cs ! k) q \<noteq> None"
        using 3(2)[of p] by auto
      then have "p = (i + Suc k) # q \<and> Suc k < length (c # cs) \<and> nodeAt ((c # cs) ! Suc k) q \<noteq> None"
        by simp
      then show ?thesis by blast
    qed
  next
    assume "\<exists>k q. p = (i + k) # q \<and> k < length (c # cs) \<and> nodeAt ((c # cs) ! k) q \<noteq> None"
    then obtain k q where kq: "p = (i + k) # q" "k < length (c # cs)" "nodeAt ((c # cs) ! k) q \<noteq> None"
      by blast
    show "p \<in> set (WalkOrderFrom i (c # cs))"
    proof (cases k)
      case 0
      then show ?thesis using kq 3(1)[of q] by simp
    next
      case (Suc k')
      then have "p = (Suc i + k') # q \<and> k' < length cs \<and> nodeAt (cs ! k') q \<noteq> None"
        using kq by simp
      then have "p \<in> set (WalkOrderFrom (Suc i) cs)" using 3(2)[of p] by blast
      then show ?thesis by simp
    qed
  qed
qed

lemma WalkOrderFrom_heads: "p \<in> set (WalkOrderFrom i cs) \<Longrightarrow> \<exists>j q. p = j # q \<and> i \<le> j"
  using WalkOrder_valid(2)[of p i cs] by auto

lemma WalkOrder_distinct:
  "distinct (WalkOrder t)"
  "distinct (WalkOrderFrom i cs)"
proof (induction t and i cs rule: WalkOrder_WalkOrderFrom.induct)
  case (1 d cs)
  have "[] \<notin> set (WalkOrderFrom 0 cs)" using WalkOrderFrom_heads[of "[]" 0 cs] by auto
  with 1 show ?case by simp
next
  case (2 i)
  then show ?case by simp
next
  case (3 i c cs)
  have "set (map ((#) i) (WalkOrder c)) \<inter> set (WalkOrderFrom (Suc i) cs) = {}"
    using WalkOrderFrom_heads[of _ "Suc i" cs] by fastforce
  with 3 show ?case by (simp add: distinct_map)
qed

lemma nodeAt_snoc:
  "nodeAt t (p @ [i]) =
     (case nodeAt t p of
        None \<Rightarrow> None
      | Some n \<Rightarrow> if i < length (Children n) then Some (Children n ! i) else None)"
  by (induction p arbitrary: t) auto

lemma valid_iff:
  "fieldsAt t q = None \<longleftrightarrow> nodeAt t q = None"
  "indexesAt t q = None \<longleftrightarrow> nodeAt t q = None"
  "augmentsAt t q = None \<longleftrightarrow> nodeAt t q = None"
  "arityAt t q = None \<longleftrightarrow> nodeAt t q = None"
  by (simp_all add: fieldsAt_def indexesAt_def augmentsAt_def arityAt_def)

lemma valid_child:
  "nodeAt t (p @ [i]) \<noteq> None \<longleftrightarrow> (\<exists>k. arityAt t p = Some k \<and> i < k)"
  by (auto simp: nodeAt_snoc arityAt_def split: option.splits)

lemma valid_prefix: "nodeAt t (p @ q) \<noteq> None \<Longrightarrow> nodeAt t p \<noteq> None"
  by (induction p arbitrary: t) (auto split: if_splits)

text \<open>Local rewrites of every node.\<close>

lemma fold_updateAt_fields:
  "distinct ps \<Longrightarrow>
     fieldsAt (fold (\<lambda>p. updateAt p (mapFields g)) ps t) q
       = (if q \<in> set ps then map_option g (fieldsAt t q) else fieldsAt t q)"
  by (induction ps arbitrary: t) (auto simp: fieldsAt_updateAt)

lemma fold_updateAt_arity:
  "arityAt (fold (\<lambda>p. updateAt p (mapFields g)) ps t) q = arityAt t q"
  by (induction ps arbitrary: t) (auto simp: arityAt_updateAt)

lemma WalkNode_mapFields:
  "fieldsAt (WalkNode t (\<lambda>p. updateAt p (mapFields g)) t) q = map_option g (fieldsAt t q)"
proof (cases "nodeAt t q")
  case None
  then have "q \<notin> set (WalkOrder t)" by (simp add: WalkOrder_valid(1))
  then show ?thesis
    using fold_updateAt_fields[OF WalkOrder_distinct(1), of g t t q] None
    by (simp add: WalkNode_def fieldsAt_def)
next
  case (Some n)
  then have "q \<in> set (WalkOrder t)" by (simp add: WalkOrder_valid(1))
  then show ?thesis
    using fold_updateAt_fields[OF WalkOrder_distinct(1), of g t t q]
    by (simp add: WalkNode_def)
qed

lemma WalkNode_mapFields_arity:
  "arityAt (WalkNode t (\<lambda>p. updateAt p (mapFields g)) t) q = arityAt t q"
  by (simp add: WalkNode_def fold_updateAt_arity)

text \<open>One assignment of indexes.\<close>

lemma indexesAt_assignIndexes:
  "indexesAt (assignIndexes dst src t) q =
     (if q = dst \<and> indexesAt t dst \<noteq> None \<and> indexesAt t src \<noteq> None
      then indexesAt t src else indexesAt t q)"
  by (auto simp: assignIndexes_def indexesAt_def fieldsAt_updateAt split: option.splits)

lemma augmentsAt_assignIndexes:
  "augmentsAt (assignIndexes dst src t) q = augmentsAt t q"
  by (auto simp: assignIndexes_def augmentsAt_def fieldsAt_updateAt option.map_comp comp_def
      split: option.splits)

lemma arityAt_assignIndexes:
  "arityAt (assignIndexes dst src t) q = arityAt t q"
  by (auto simp: assignIndexes_def arityAt_updateAt split: option.splits)

lemma fold_assignIndexes:
  "indexesAt (fold (\<lambda>i. assignIndexes (p @ [i]) src) js t) q =
     (if (\<exists>i\<in>set js. q = p @ [i]) \<and> indexesAt t q \<noteq> None \<and> indexesAt t src \<noteq> None
      then indexesAt t src else indexesAt t q)"
proof (induction js arbitrary: t)
  case Nil
  then show ?case by simp
next
  case (Cons j js)
  let ?t1 = "assignIndexes (p @ [j]) src t"
  have src: "indexesAt ?t1 src = indexesAt t src"
    by (simp add: indexesAt_assignIndexes)
  have q: "indexesAt ?t1 q \<noteq> None \<longleftrightarrow> indexesAt t q \<noteq> None"
    by (auto simp: indexesAt_assignIndexes)
  show ?case
    using Cons.IH[of ?t1] src q by (auto simp: indexesAt_assignIndexes)
qed

lemma fold_assignIndexes_frame:
  "augmentsAt (fold (\<lambda>i. assignIndexes (p @ [i]) src) js t) q = augmentsAt t q"
  "arityAt (fold (\<lambda>i. assignIndexes (p @ [i]) src) js t) q = arityAt t q"
  by (induction js arbitrary: t) (auto simp: augmentsAt_assignIndexes arityAt_assignIndexes)

lemma indexesAt_assignChildren:
  "indexesAt (assignChildren p src t) q =
     (if (\<exists>i. q = p @ [i]) \<and> indexesAt t q \<noteq> None \<and> indexesAt t src \<noteq> None
      then indexesAt t src else indexesAt t q)"
proof (cases "arityAt t p")
  case None
  then have "nodeAt t p = None" by (simp add: valid_iff)
  then have "indexesAt t (p @ [i]) = None" for i by (simp add: valid_iff nodeAt_snoc)
  then show ?thesis using None by (auto simp: assignChildren_def)
next
  case (Some k)
  have "i < k" if "indexesAt t (p @ [i]) \<noteq> None" for i
    using valid_child[of t p i] Some that by (simp add: valid_iff)
  then have "(\<exists>i\<in>set [0..<k]. q = p @ [i]) \<longleftrightarrow> (\<exists>i. q = p @ [i])" if "indexesAt t q \<noteq> None"
    using that by auto
  then show ?thesis using Some fold_assignIndexes[of p src "[0..<k]" t q]
    by (auto simp: assignChildren_def)
qed

lemma assignChildren_frame:
  "augmentsAt (assignChildren p src t) q = augmentsAt t q"
  "arityAt (assignChildren p src t) q = arityAt t q"
  by (auto simp: assignChildren_def fold_assignIndexes_frame split: option.splits)

text \<open>The callbacks of the third and the fourth walk.\<close>

lemma indexesAt_copyAugmented:
  "indexesAt (copyAugmented nameToNode p t) q =
     (case augmentsAt t p of
        None \<Rightarrow> indexesAt t q
      | Some a \<Rightarrow>
          if a = '''' then indexesAt t q
          else (case nameToNode a of
                  None \<Rightarrow> indexesAt t q
                | Some src \<Rightarrow>
                    if (q = p \<or> (\<exists>i. q = p @ [i])) \<and> indexesAt t q \<noteq> None
                       \<and> indexesAt t src \<noteq> None
                    then indexesAt t src else indexesAt t q))"
  by (auto simp: copyAugmented_def augmentsAt_def indexesAt_assignIndexes
      indexesAt_assignChildren split: option.splits)

lemma copyAugmented_frame:
  "augmentsAt (copyAugmented nameToNode p t) q = augmentsAt t q"
  "arityAt (copyAugmented nameToNode p t) q = arityAt t q"
  by (auto simp: copyAugmented_def augmentsAt_assignIndexes arityAt_assignIndexes
      assignChildren_frame split: option.splits)

lemma indexesAt_copyToChildren:
  "indexesAt (copyToChildren p t) q =
     (case indexesAt t p of
        None \<Rightarrow> indexesAt t q
      | Some is \<Rightarrow>
          if is \<noteq> [] \<and> (\<exists>i. q = p @ [i]) \<and> indexesAt t q \<noteq> None then Some is
          else indexesAt t q)"
  by (auto simp: copyToChildren_def indexesAt_assignChildren split: option.splits)

lemma copyToChildren_frame:
  "arityAt (copyToChildren p t) q = arityAt t q"
  by (auto simp: copyToChildren_def assignChildren_frame split: option.splits)

lemma fold_frame:
  assumes "\<And>p t q. h (f p t) q = h t q"
  shows "h (fold f ps t) q = h t q"
  by (induction ps arbitrary: t) (simp_all add: assms)

lemma fold_invariant:
  assumes "I t" and "\<And>p t. p \<in> set ps \<Longrightarrow> I t \<Longrightarrow> I (f p t)"
  shows "I (fold f ps t)"
  using assms by (induction ps arbitrary: t) auto

lemma strict_prefix_snoc_self: "strict_prefix p (p @ [i])"
  by (simp add: strict_prefix_def)

lemma strict_prefix_parent: "strict_prefix (p @ [i]) q \<Longrightarrow> strict_prefix p q"
  by (auto simp: strict_prefix_def prefix_def)

lemma split_distinct:
  assumes "distinct ps" and "x \<in> set ps"
  shows "\<exists>xs ys. ps = xs @ x # ys \<and> x \<notin> set xs \<and> x \<notin> set ys"
proof -
  from split_list[OF assms(2)] obtain xs ys where s: "ps = xs @ x # ys" by blast
  with assms(1) have "x \<notin> set xs \<and> x \<notin> set ys" by simp
  with s show ?thesis by blast
qed

text \<open>The third walk, seen from the augmenting node.\<close>

lemma copyAugmented_elsewhere:
  assumes "augmentsAt t p = Some ''''"
  shows "copyAugmented nameToNode p t = t"
  using assms by (auto simp: copyAugmented_def augmentsAt_def split: option.splits)

lemma augment_walk:
  assumes ps: "distinct ps" "pB \<in> set ps"
    and ntn: "nameToNode ''A'' = Some pA"
    and augB: "augmentsAt t pB = Some ''A''"
    and idxA: "indexesAt t pA = Some [''A'']"
    and AA: "\<forall>q. (q = pA \<or> (\<exists>i. pA = q @ [i])) \<longrightarrow> q = pB \<or> augmentsAt t q = Some ''''"
    and anc: "\<forall>q. strict_prefix q pB \<longrightarrow> augmentsAt t q = Some '''' \<and> indexesAt t q = Some []"
  shows "indexesAt (fold (copyAugmented nameToNode) ps t) pB = Some [''A'']
       \<and> (\<forall>q. strict_prefix q pB \<longrightarrow> indexesAt (fold (copyAugmented nameToNode) ps t) q = Some [])"
proof -
  define J where "J t' \<longleftrightarrow> (\<forall>q. augmentsAt t' q = augmentsAt t q)
      \<and> indexesAt t' pA = Some [''A'']
      \<and> (\<forall>q. strict_prefix q pB \<longrightarrow> indexesAt t' q = Some [])" for t'
  define J' where "J' t' \<longleftrightarrow> J t' \<and> indexesAt t' pB = Some [''A'']" for t'
  have J0: "J t" using idxA anc by (simp add: J_def)
  have quiet: "copyAugmented nameToNode p t' = t'"
    if "J t'" and "p = pA \<or> (\<exists>i. pA = p @ [i]) \<or> strict_prefix p pB" and "p \<noteq> pB" for p t'
  proof -
    have "augmentsAt t p = Some ''''"
    proof (cases "strict_prefix p pB")
      case True
      with anc show ?thesis by simp
    next
      case False
      with that(2) have "p = pA \<or> (\<exists>i. pA = p @ [i])" by simp
      with AA[rule_format, of p] that(3) show ?thesis by simp
    qed
    with that(1) have "augmentsAt t' p = Some ''''" by (simp add: J_def)
    then show ?thesis by (rule copyAugmented_elsewhere)
  qed
  have untouched: "indexesAt (copyAugmented nameToNode p t') q = indexesAt t' q"
    if "\<not> (q = p \<or> (\<exists>i. q = p @ [i]))" for p q t'
    using that by (simp add: indexesAt_copyAugmented split: option.splits)
  have keep: "indexesAt (copyAugmented nameToNode p t') q = indexesAt t' q"
    if "J t'" and "p \<noteq> pB" and "q = pA \<or> strict_prefix q pB" for p q t'
  proof (cases "q = p \<or> (\<exists>i. q = p @ [i])")
    case True
    have "p = pA \<or> (\<exists>i. pA = p @ [i]) \<or> strict_prefix p pB"
    proof (cases "q = pA")
      case True
      with \<open>q = p \<or> (\<exists>i. q = p @ [i])\<close> show ?thesis by auto
    next
      case False
      with that(3) have sp: "strict_prefix q pB" by simp
      from \<open>q = p \<or> (\<exists>i. q = p @ [i])\<close> show ?thesis
      proof
        assume "q = p"
        with sp show ?thesis by simp
      next
        assume "\<exists>i. q = p @ [i]"
        then obtain i where "q = p @ [i]" ..
        with sp have "strict_prefix p pB" using strict_prefix_parent[of p i pB] by simp
        then show ?thesis by simp
      qed
    qed
    from quiet[OF that(1) this that(2)] show ?thesis by simp
  next
    case False
    then show ?thesis by (rule untouched)
  qed
  have stepJ: "J (copyAugmented nameToNode p t')" if "J t'" and "p \<noteq> pB" for p t'
    using that keep[OF that] by (simp add: J_def copyAugmented_frame)
  have atB: "indexesAt (copyAugmented nameToNode pB t') q =
      (if (q = pB \<or> (\<exists>i. q = pB @ [i])) \<and> indexesAt t' q \<noteq> None then Some [''A'']
       else indexesAt t' q)" if "J t'" for t' q
  proof -
    from that augB have "augmentsAt t' pB = Some ''A''" by (simp add: J_def)
    moreover from that have "indexesAt t' pA = Some [''A'']" by (simp add: J_def)
    ultimately show ?thesis using ntn by (simp add: indexesAt_copyAugmented)
  qed
  have validB: "indexesAt t' pB \<noteq> None" if "J t'" for t'
  proof -
    from that augB have "augmentsAt t' pB = Some ''A''" by (simp add: J_def)
    then show ?thesis by (auto simp: augmentsAt_def indexesAt_def)
  qed
  have stepB: "J' (copyAugmented nameToNode pB t')" if "J t'" for t'
  proof -
    have 1: "indexesAt (copyAugmented nameToNode pB t') pA = Some [''A'']"
      using that atB[OF that, of pA] by (simp add: J_def)
    have 2: "indexesAt (copyAugmented nameToNode pB t') q = Some []" if q: "strict_prefix q pB" for q
    proof -
      have "q \<noteq> pB" using q by (simp add: strict_prefix_def)
      moreover have "q \<noteq> pB @ [i]" for i using q by (auto simp: strict_prefix_def prefix_def)
      ultimately show ?thesis using atB[OF \<open>J t'\<close>, of q] \<open>J t'\<close> q by (simp add: J_def)
    qed
    have 3: "indexesAt (copyAugmented nameToNode pB t') pB = Some [''A'']"
      using atB[OF that, of pB] validB[OF that] by simp
    show ?thesis using that 1 2 3 by (simp add: J'_def J_def copyAugmented_frame)
  qed
  have stepJ': "J' (copyAugmented nameToNode p t')" if "J' t'" and "p \<noteq> pB" for p t'
  proof -
    from that have j: "J t'" by (simp add: J'_def)
    have "indexesAt (copyAugmented nameToNode p t') pB = indexesAt t' pB"
    proof (cases "\<exists>i. pB = p @ [i]")
      case True
      then have "strict_prefix p pB" using strict_prefix_snoc_self by auto
      with quiet[OF j _ that(2)] show ?thesis by simp
    next
      case False
      with that(2) have "\<not> (pB = p \<or> (\<exists>i. pB = p @ [i]))" by simp
      then show ?thesis by (rule untouched)
    qed
    then show ?thesis using that stepJ[OF j that(2)] by (simp add: J'_def)
  qed
  from ps obtain xs ys where split: "ps = xs @ pB # ys" and xs: "pB \<notin> set xs" and ys: "pB \<notin> set ys"
    using split_distinct[of ps pB] by blast
  have "J (fold (copyAugmented nameToNode) xs t)"
  proof (rule fold_invariant[where I = J])
    show "J t" by (rule J0)
  next
    fix p t' assume "p \<in> set xs" and "J t'"
    with xs show "J (copyAugmented nameToNode p t')" using stepJ[of t' p] by auto
  qed
  then have b: "J' (copyAugmented nameToNode pB (fold (copyAugmented nameToNode) xs t))"
    by (rule stepB)
  have "J' (fold (copyAugmented nameToNode) ys
      (copyAugmented nameToNode pB (fold (copyAugmented nameToNode) xs t)))"
  proof (rule fold_invariant[where I = J'])
    show "J' (copyAugmented nameToNode pB (fold (copyAugmented nameToNode) xs t))" by (rule b)
  next
    fix p t' assume "p \<in> set ys" and "J' t'"
    with ys show "J' (copyAugmented nameToNode p t')" using stepJ'[of t' p] by auto
  qed
  then have "J' (fold (copyAugmented nameToNode) ps t)" by (simp add: split)
  then show ?thesis by (simp add: J'_def J_def)
qed

text \<open>The fourth walk.\<close>

lemma children_walk:
  assumes ps: "distinct ps" "pB \<in> set ps"
    and idxB: "indexesAt t pB = Some [''A'']"
    and anc: "\<forall>q. strict_prefix q pB \<longrightarrow> indexesAt t q = Some []"
  shows "indexesAt (fold copyToChildren ps t) pB = Some [''A'']
       \<and> (\<forall>i. indexesAt t (pB @ [i]) \<noteq> None \<longrightarrow>
            indexesAt (fold copyToChildren ps t) (pB @ [i]) = Some [''A''])"
proof -
  define K where "K t' \<longleftrightarrow> indexesAt t' pB = Some [''A'']
      \<and> (\<forall>q. strict_prefix q pB \<longrightarrow> indexesAt t' q = Some [])
      \<and> (\<forall>q. indexesAt t' q = None \<longleftrightarrow> indexesAt t q = None)" for t'
  define K' where "K' t' \<longleftrightarrow> K t'
      \<and> (\<forall>i. indexesAt t (pB @ [i]) \<noteq> None \<longrightarrow> indexesAt t' (pB @ [i]) = Some [''A''])" for t'
  have K0: "K t" using idxB anc by (simp add: K_def)
  have valid: "indexesAt (copyToChildren p t') q = None \<longleftrightarrow> indexesAt t' q = None" for p t' q
    by (simp add: indexesAt_copyToChildren split: option.splits)
  have keep: "indexesAt (copyToChildren p t') q = indexesAt t' q"
    if "K t'" and "q = pB \<or> strict_prefix q pB" for p q t'
  proof (cases "\<exists>i. q = p @ [i]")
    case True
    then obtain i where qi: "q = p @ [i]" ..
    have "strict_prefix p pB"
    proof (cases "q = pB")
      case True
      with qi show ?thesis using strict_prefix_snoc_self[of p i] by simp
    next
      case False
      with that(2) have "strict_prefix q pB" by simp
      with qi show ?thesis using strict_prefix_parent[of p i pB] by simp
    qed
    with that(1) have "indexesAt t' p = Some []" by (simp add: K_def)
    then show ?thesis by (simp add: indexesAt_copyToChildren)
  next
    case False
    then show ?thesis by (simp add: indexesAt_copyToChildren split: option.splits)
  qed
  have stepK: "K (copyToChildren p t')" if "K t'" for p t'
    using that keep[OF that] valid by (simp add: K_def)
  have stepB: "K' (copyToChildren pB t')" if "K t'" for t'
  proof -
    from that have "indexesAt t' pB = Some [''A'']" by (simp add: K_def)
    then have "indexesAt (copyToChildren pB t') (pB @ [i]) = Some [''A'']"
      if "indexesAt t' (pB @ [i]) \<noteq> None" for i
      using that by (simp add: indexesAt_copyToChildren)
    moreover have "indexesAt t' q = None \<longleftrightarrow> indexesAt t q = None" for q
      using \<open>K t'\<close> by (simp add: K_def)
    ultimately show ?thesis using stepK[OF that] by (simp add: K'_def)
  qed
  have stepK': "K' (copyToChildren p t')" if "K' t'" and "p \<noteq> pB" for p t'
  proof -
    have "indexesAt (copyToChildren p t') (pB @ [i]) = indexesAt t' (pB @ [i])" for i
      using that(2) by (simp add: indexesAt_copyToChildren split: option.splits)
    then show ?thesis using that(1) stepK[of t' p] by (simp add: K'_def)
  qed
  from ps obtain xs ys where split: "ps = xs @ pB # ys" and xs: "pB \<notin> set xs" and ys: "pB \<notin> set ys"
    using split_distinct[of ps pB] by blast
  have "K (fold copyToChildren xs t)"
  proof (rule fold_invariant[where I = K])
    show "K t" by (rule K0)
  next
    fix p t' assume "p \<in> set xs" and "K t'"
    then show "K (copyToChildren p t')" using stepK[of t' p] by simp
  qed
  then have b: "K' (copyToChildren pB (fold copyToChildren xs t))" by (rule stepB)
  have "K' (fold copyToChildren ys (copyToChildren pB (fold copyToChildren xs t)))"
  proof (rule fold_invariant[where I = K'])
    show "K' (copyToChildren pB (fold copyToChildren xs t))" by (rule b)
  next
    fix p t' assume "p \<in> set ys" and "K' t'"
    with ys show "K' (copyToChildren p t')" using stepK'[of t' p] by auto
  qed
  then have "K' (fold copyToChildren ps t)" by (simp add: split)
  then show ?thesis by (simp add: K'_def K_def)
qed

lemma fixIndexes_simps:
  "Augments (fixIndexes n) = Augments n"
  "Indexes (fixIndexes n) = map (\<lambda>i. if i = ''INTEGER'' then Label n else i) (Indexes n)"
  by (simp_all add: fixIndexes_def)

lemma trimDescription_simps:
  "Augments (trimDescription n) = Augments n"
  "Indexes (trimDescription n) = Indexes n"
  "Label (trimDescription n) = Label n"
  by (simp_all add: trimDescription_def)

lemma setType_Indexes: "Indexes (setType n) = Indexes n"
  by (simp add: setType_def Let_def)

text \<open>
  Claim C6, amended. Node \<open>A\<close> has label \<open>A\<close> and raw indexes \<open>[INTEGER]\<close>, node
  \<open>B\<close> augments \<open>A\<close>, and the name index resolves \<open>A\<close> to node \<open>A\<close>. Neither
  \<open>A\<close> nor its parent augments a node, unless it is \<open>B\<close>; no proper ancestor of
  \<open>B\<close> has indexes or augments a node. Then after \<open>PrepareTree\<close> the indexes of
  \<open>B\<close> and of every direct child of \<open>B\<close> are \<open>[A]\<close>.
\<close>

theorem PrepareTree_augments:
  assumes A: "fieldsAt nodes pA = Some a" "Label a = ''A''" "Indexes a = [''INTEGER'']"
    and B: "fieldsAt nodes pB = Some b" "Augments b = ''A''"
    and N: "snd (PrepareTree nodes) ''A'' = Some pA"
    and AA: "\<forall>q. (q = pA \<or> (\<exists>i. pA = q @ [i])) \<longrightarrow> q = pB \<or> augmentsAt nodes q = Some ''''"
    and anc: "\<forall>q. strict_prefix q pB \<longrightarrow>
                augmentsAt nodes q = Some '''' \<and> indexesAt nodes q = Some []"
  shows "indexesAt (fst (PrepareTree nodes)) pB = Some [''A'']
       \<and> (\<forall>i. nodeAt nodes (pB @ [i]) \<noteq> None \<longrightarrow>
            indexesAt (fst (PrepareTree nodes)) (pB @ [i]) = Some [''A''])"
proof -
  define nameToNode where "nameToNode = WalkNode nodes (putNode nodes) Map.empty"
  define t1 where "t1 = WalkNode nodes (\<lambda>p. updateAt p (mapFields trimDescription)) nodes"
  define t2 where "t2 = WalkNode t1 (\<lambda>p. updateAt p (mapFields fixIndexes)) t1"
  define t3 where "t3 = WalkNode t2 (copyAugmented nameToNode) t2"
  define t4 where "t4 = WalkNode t3 copyToChildren t3"
  define t5 where "t5 = WalkNode t4 (\<lambda>p. updateAt p (mapFields setType)) t4"
  have P: "PrepareTree nodes = (t5, nameToNode)"
    by (simp add: PrepareTree_def Let_def nameToNode_def t1_def t2_def t3_def t4_def t5_def)
  have f2: "fieldsAt t2 q = map_option (\<lambda>n. fixIndexes (trimDescription n)) (fieldsAt nodes q)" for q
    by (simp add: t2_def t1_def WalkNode_mapFields option.map_comp comp_def)
  have a2: "arityAt t2 q = arityAt nodes q" for q
    by (simp add: t2_def t1_def WalkNode_mapFields_arity)
  have aug2: "augmentsAt t2 q = augmentsAt nodes q" for q
    by (simp add: augmentsAt_def f2 option.map_comp comp_def fixIndexes_simps trimDescription_simps)
  have idx2: "indexesAt t2 q = Some []" if "indexesAt nodes q = Some []" for q
    using that
    by (auto simp: indexesAt_def f2 option.map_comp comp_def fixIndexes_simps trimDescription_simps)
  have idxA: "indexesAt t2 pA = Some [''A'']"
    using A by (simp add: indexesAt_def f2 fixIndexes_simps trimDescription_simps)
  have "augmentsAt nodes pB = Some ''A''"
    using B by (simp add: augmentsAt_def)
  then have augB: "augmentsAt t2 pB = Some ''A''"
    by (simp add: aug2)
  have ntn: "nameToNode ''A'' = Some pA" using N by (simp add: P)
  have vB2: "pB \<in> set (WalkOrder t2)"
    using augB by (auto simp: WalkOrder_valid(1) augmentsAt_def fieldsAt_def)
  have AA2: "\<forall>q. (q = pA \<or> (\<exists>i. pA = q @ [i])) \<longrightarrow> q = pB \<or> augmentsAt t2 q = Some ''''"
    using AA by (simp add: aug2)
  have anc2: "\<forall>q. strict_prefix q pB \<longrightarrow> augmentsAt t2 q = Some '''' \<and> indexesAt t2 q = Some []"
    using anc idx2 by (simp add: aug2)
  from augment_walk[of "WalkOrder t2" pB nameToNode pA t2,
      OF WalkOrder_distinct(1) vB2 ntn augB idxA AA2 anc2]
  have idxB3: "indexesAt t3 pB = Some [''A'']"
    and anc3: "\<forall>q. strict_prefix q pB \<longrightarrow> indexesAt t3 q = Some []"
    by (simp_all add: t3_def WalkNode_def)
  have a3: "arityAt t3 q = arityAt nodes q" for q
    unfolding t3_def WalkNode_def
    using fold_frame[of arityAt "copyAugmented nameToNode" "WalkOrder t2" t2 q] copyAugmented_frame(2)
    by (simp add: a2)
  have vB3: "pB \<in> set (WalkOrder t3)"
    using idxB3 by (auto simp: WalkOrder_valid(1) indexesAt_def fieldsAt_def)
  from children_walk[of "WalkOrder t3" pB t3, OF WalkOrder_distinct(1) vB3 idxB3 anc3]
  have idxB4: "indexesAt t4 pB = Some [''A'']"
    and ch4: "\<forall>i. indexesAt t3 (pB @ [i]) \<noteq> None \<longrightarrow> indexesAt t4 (pB @ [i]) = Some [''A'']"
    by (simp_all add: t4_def WalkNode_def)
  have i5: "indexesAt t5 q = indexesAt t4 q" for q
    by (simp add: indexesAt_def t5_def WalkNode_mapFields option.map_comp comp_def setType_Indexes)
  have v3: "indexesAt t3 q \<noteq> None" if "nodeAt nodes q \<noteq> None" for q
  proof -
    from that have "arityAt nodes q \<noteq> None" by (simp add: valid_iff(4))
    then have "arityAt t3 q \<noteq> None" by (simp add: a3)
    then have "nodeAt t3 q \<noteq> None" by (simp add: valid_iff(4))
    then show ?thesis by (simp add: valid_iff(2))
  qed
  show ?thesis using idxB4 ch4 v3 by (simp add: P i5)
qed

lemma PrepareTree_nameToNode:
  "snd (PrepareTree nodes) = WalkNode nodes (putNode nodes) Map.empty"
  by (simp add: PrepareTree_def Let_def)

lemmas prepare_defs = PrepareTree_def WalkNode_def putNode_def fieldsAt_def indexesAt_def
  arityAt_def augmentsAt_def copyAugmented_def copyToChildren_def assignChildren_def
  assignIndexes_def mapFields_def trimDescription_def fixIndexes_def setType_def Fields_def
  Let_def upt_rec augmentingTree_def leaf_def

lemma augmentingTree_names: "snd (PrepareTree (augmentingTree is)) ''A'' = Some [0]"
  by (simp add: PrepareTree_nameToNode WalkNode_def putNode_def fieldsAt_def augmentingTree_def leaf_def)

text \<open>
  Against claim C6 as stated: \<open>A\<close> and \<open>B\<close> are as the claim has them, and their
  parent has the indexes \<open>[row]\<close>. The fourth walk hands them to \<open>B\<close> and on to the
  child of \<open>B\<close>.
\<close>

theorem PrepareTree_augments_under_indexed_parent:
  "map_option Label (fieldsAt (augmentingTree [''row'']) [0]) = Some ''A''
   \<and> indexesAt (augmentingTree [''row'']) [0] = Some [''INTEGER'']
   \<and> augmentsAt (augmentingTree [''row'']) [1] = Some ''A''
   \<and> indexesAt (fst (PrepareTree (augmentingTree [''row'']))) [1] = Some [''row'']
   \<and> indexesAt (fst (PrepareTree (augmentingTree [''row'']))) [1, 0] = Some [''row'']"
  by (simp add: prepare_defs)

theorem PrepareTree_augments_witness:
  "indexesAt (fst (PrepareTree (augmentingTree []))) [1] = Some [''A'']
   \<and> indexesAt (fst (PrepareTree (augmentingTree []))) [1, 0] = Some [''A'']"
proof -
  let ?W = "augmentingTree []"
  let ?a = "leaf ''1.1'' ''A'' '''' [''INTEGER'']"
  let ?b = "leaf ''1.2'' ''B'' ''A'' []"
  have A: "fieldsAt ?W [0] = Some ?a" "Label ?a = ''A''" "Indexes ?a = [''INTEGER'']"
    by (simp_all add: fieldsAt_def augmentingTree_def leaf_def)
  have B: "fieldsAt ?W [1] = Some ?b" "Augments ?b = ''A''"
    by (simp_all add: fieldsAt_def augmentingTree_def leaf_def)
  have N: "snd (PrepareTree ?W) ''A'' = Some [0]" by (rule augmentingTree_names)
  have root: "augmentsAt ?W [] = Some ''''" "indexesAt ?W [] = Some []"
    "augmentsAt ?W [0] = Some ''''"
    by (simp_all add: augmentsAt_def indexesAt_def fieldsAt_def augmentingTree_def leaf_def)
  have AA: "\<forall>q. (q = [0] \<or> (\<exists>i. [0] = q @ [i])) \<longrightarrow> q = [1] \<or> augmentsAt ?W q = Some ''''"
    using root by (auto simp: append_eq_Cons_conv)
  have anc: "\<forall>q. strict_prefix q [1] \<longrightarrow>
      augmentsAt ?W q = Some '''' \<and> indexesAt ?W q = Some []"
    using root by (auto simp: strict_prefix_def prefix_Cons)
  have C: "nodeAt ?W ([1] @ [0]) \<noteq> None" by (simp add: augmentingTree_def)
  from PrepareTree_augments[OF A B N AA anc] C show ?thesis by auto
qed

section \<open>Dotted prefixes, segment by segment\<close>

lemma segments_nonempty: "segments s \<noteq> []"
  by (induction s) (auto split: list.splits)

lemma segments_append_dot: "segments (a @ CHR ''.'' # w) = segments a @ segments w"
proof (induction a)
  case Nil
  then show ?case by simp
next
  case (Cons c a)
  then show ?case using segments_nonempty[of a] by (cases "segments a") auto
qed

lemma Join_segments: "Join (segments s) ''.'' = s"
proof (induction s)
  case Nil
  then show ?case by simp
next
  case (Cons c s)
  show ?case
  proof (cases "c = CHR ''.''")
    case True
    then show ?thesis using Cons segments_nonempty[of s] by (cases "segments s") auto
  next
    case False
    obtain seg segs where sg: "segments s = seg # segs"
      using segments_nonempty[of s] by (cases "segments s") auto
    then show ?thesis using Cons False by (cases segs) auto
  qed
qed

lemma Join_append:
  "xs \<noteq> [] \<Longrightarrow> ys \<noteq> [] \<Longrightarrow> Join (xs @ ys) sep = Join xs sep @ sep @ Join ys sep"
proof (induction xs sep rule: Join.induct)
  case (1 sep)
  then show ?case by simp
next
  case (2 x sep)
  then show ?case by (cases ys) auto
next
  case (3 x y zs sep)
  then show ?case by simp
qed

lemma dottedPrefix_segments: "dottedPrefix a b \<longleftrightarrow> prefix (segments a) (segments b)"
proof
  assume "dottedPrefix a b"
  then consider "b = a" | w where "b = a @ CHR ''.'' # w"
    by (auto simp: dottedPrefix_cases prefix_def)
  then show "prefix (segments a) (segments b)"
    by cases (auto simp: segments_append_dot)
next
  assume "prefix (segments a) (segments b)"
  then obtain rest where r: "segments b = segments a @ rest" by (auto simp: prefix_def)
  show "dottedPrefix a b"
  proof (cases rest)
    case Nil
    with r have "Join (segments b) ''.'' = Join (segments a) ''.''" by simp
    then have "b = a" by (simp add: Join_segments)
    then show ?thesis by (simp add: dottedPrefix_refl)
  next
    case (Cons x xs)
    then have "Join (segments b) ''.'' = Join (segments a) ''.'' @ ''.'' @ Join rest ''.''"
      using r Join_append[of "segments a" rest "''.''"] segments_nonempty[of a] by simp
    then have "b = a @ ''.'' @ Join rest ''.''" by (simp add: Join_segments)
    then show ?thesis by (simp add: dottedPrefix_def)
  qed
qed

section \<open>The two readings of WalkNode\<close>

text \<open>The pointers of \<open>WalkOrder\<close> lead to the nodes of \<open>WalkNodes\<close>, in the same order.\<close>

lemma WalkOrder_WalkNodes:
  "map (nodeAt t) (WalkOrder t) = map Some (WalkNodes t)"
  "map (\<lambda>p. nodeAt (Node d (pre @ cs)) p) (WalkOrderFrom (length pre) cs)
     = map Some (concat (map WalkNodes cs))"
proof (induction t and "length pre" cs arbitrary: and pre d rule: WalkOrder_WalkOrderFrom.induct)
  case (1 d cs)
  from 1[of "[]" d] show ?case by simp
next
  case 2
  then show ?case by simp
next
  case (3 c cs)
  have "map (\<lambda>p. nodeAt (Node d (pre @ c # cs)) p) (map ((#) (length pre)) (WalkOrder c))
          = map (nodeAt c) (WalkOrder c)"
    by (simp add: comp_def nth_append)
  moreover have "map (\<lambda>p. nodeAt (Node d ((pre @ [c]) @ cs)) p) (WalkOrderFrom (length (pre @ [c])) cs)
          = map Some (concat (map WalkNodes cs))"
    using 3(2)[of "pre @ [c]" d] by simp
  ultimately show ?case using 3(1) by simp
qed

section \<open>What the generator sanitizes\<close>

text \<open>
  In every module the generator returns, the name of every metric and the labelname of
  every lookup is sanitized. The labelname of an index is sanitized only where a lookup
  rule rewrote it.
\<close>

lemma sanitize_list_all: "list_all labelChar (sanitizeLabelName s)"
  using sanitize_labelChars[of s] by (simp add: list_all_iff)

lemma nodeMetric_sanitized: "nodeMetric nameToNode n = Some metric \<Longrightarrow> sanitized metric"
  by (auto simp: nodeMetric_def sanitized_def sanitize_list_all split: option.splits if_splits)

lemma walkLoop_sanitized:
  assumes "walkLoop nameToNode toWalk (metrics, needToWalk) = Inr (metrics', needToWalk')"
    and "list_all sanitized metrics"
  shows "list_all sanitized metrics'"
  using assms
proof (induction toWalk arbitrary: metrics needToWalk)
  case Nil
  then show ?case by simp
next
  case (Cons oid toWalk)
  from Cons.prems(1) obtain node where n: "nameToNode oid = Some node"
    by (auto split: option.splits)
  have "list_all sanitized (List.map_filter (nodeMetric nameToNode) (WalkNodes node))"
    using nodeMetric_sanitized[of nameToNode]
    by (auto simp: list_all_iff List.map_filter_def)
  with Cons.prems(2) have "list_all sanitized
      (metrics @ List.map_filter (nodeMetric nameToNode) (WalkNodes node))" by simp
  with Cons.IH Cons.prems(1) n show ?case by simp
qed

lemma lookupIndexes_sanitized:
  "lookupIndexes nameToNode lookup indexes = Inr (indexes', lookups, oids) \<Longrightarrow>
     list_all (\<lambda>lookup. list_all labelChar (Lookup_Labelname lookup)) lookups"
proof (induction indexes arbitrary: indexes' lookups oids)
  case Nil
  then show ?case by simp
next
  case (Cons index indexes)
  then show ?case
    by (auto simp: sanitize_list_all split: if_splits option.splits sum.splits prod.splits)
qed

lemma lookupMetrics_sanitized:
  "lookupMetrics nameToNode lookup metrics = Inr (metrics', oids) \<Longrightarrow>
     list_all sanitized metrics \<Longrightarrow> list_all sanitized metrics'"
proof (induction metrics arbitrary: metrics' oids)
  case Nil
  then show ?case by simp
next
  case (Cons metric metrics)
  from Cons.prems(1) obtain indexes lookups oids1 ms oids2 where
    li: "lookupIndexes nameToNode lookup (Metric_Indexes metric) = Inr (indexes, lookups, oids1)"
    and lm: "lookupMetrics nameToNode lookup metrics = Inr (ms, oids2)"
    and m': "metrics' = metric\<lparr>Metric_Indexes := indexes,
                Metric_Lookups := Metric_Lookups metric @ lookups\<rparr> # ms"
    by (auto split: sum.splits prod.splits)
  from lookupIndexes_sanitized[OF li] Cons.prems(2)
  have "sanitized (metric\<lparr>Metric_Indexes := indexes,
                Metric_Lookups := Metric_Lookups metric @ lookups\<rparr>)"
    by (simp add: sanitized_def)
  moreover from Cons.IH[OF lm] Cons.prems(2) have "list_all sanitized ms" by simp
  ultimately show ?case by (simp add: m')
qed

lemma applyLookups_sanitized:
  "applyLookups nameToNode lookups (metrics, needToWalk) = Inr (metrics', needToWalk') \<Longrightarrow>
     list_all sanitized metrics \<Longrightarrow> list_all sanitized metrics'"
proof (induction lookups arbitrary: metrics needToWalk)
  case Nil
  then show ?case by simp
next
  case (Cons lookup lookups)
  from Cons.prems(1) obtain ms oids where
    lm: "lookupMetrics nameToNode lookup metrics = Inr (ms, oids)"
    and rest: "applyLookups nameToNode lookups (ms, needToWalk @ oids) = Inr (metrics', needToWalk')"
    by (auto split: sum.splits prod.splits)
  from lookupMetrics_sanitized[OF lm Cons.prems(2)] Cons.IH[OF rest] show ?case by simp
qed

lemma applyOverride_sanitized: "sanitized (applyOverride ov metric) = sanitized metric"
  by (simp add: applyOverride_def sanitized_def)

lemma applyOverrides_sanitized:
  "list_all sanitized (applyOverrides overrides metrics) = list_all sanitized metrics"
  unfolding applyOverrides_def
  by (induction overrides arbitrary: metrics)
     (simp_all add: list_all_iff applyOverride_sanitized)

lemma generateConfigModule_sanitized:
  assumes "generateConfigModule cfg node nameToNode = Inr out"
  shows "list_all sanitized (Module_Metrics out)"
proof -
  from assms obtain toWalk metrics needToWalk metrics' needToWalk' where
    w: "walkLoop nameToNode (minimizeOids toWalk) ([], []) = Inr (metrics, needToWalk)"
    and l: "applyLookups nameToNode (Lookups cfg) (metrics, needToWalk) = Inr (metrics', needToWalk')"
    and out: "Module_Metrics out = applyOverrides (Overrides cfg) metrics'"
    by (auto simp: generateConfigModule_def split: sum.splits prod.splits)
  from walkLoop_sanitized[OF w] have "list_all sanitized metrics" by simp
  from applyLookups_sanitized[OF l this] show ?thesis
    by (simp add: out applyOverrides_sanitized)
qed

section \<open>From the tree to the module\<close>

text \<open>
  \<open>PrepareTree\<close> and then \<open>generateConfigModule\<close> on the tree of \<open>ifEntry\<close>: the
  fourth walk hands the index of the row to the column, the description is cut at the first
  sentence, and the module is the one of the end-to-end scenario.
\<close>

lemma PrepareTree_ifEntry:
  "PrepareTree ifEntry = (t, names) \<Longrightarrow>
     generateConfigModule \<lparr>Walk = [''ifInOctets''], Lookups = [], Overrides = []\<rparr> t (deref t names)
       = Inr (\<lparr>Module_Walk = [''1.3.6.1.2.1.2.2.1.10''],
              Module_Metrics =
                [\<lparr>Metric_Name = ''ifInOctets'',
                  Metric_Oid = ''1.3.6.1.2.1.2.2.1.10'',
                  Metric_Type = ''counter'',
                  Metric_Help = ''The total number of octets - 1.3.6.1.2.1.2.2.1.10'',
                  Metric_Indexes =
                    [\<lparr>Index_Labelname = ''ifIndex'', Index_Type = ''gauge'', Index_FixedSize = 0\<rparr>],
                  Metric_Lookups = [],
                  Metric_RegexpExtracts = None\<rparr>]\<rparr> :: nat config_Module)"
  by (auto simp: prepare_defs gen_defs deref_def ifEntry_def IsSpace_def)

text \<open>
  Against claim C2 as stated: the tree of exactly the two nodes, \<open>ifIndex\<close> below the
  root \<open>ifInOctets\<close>. The walk from \<open>ifInOctets\<close> visits \<open>ifIndex\<close> too, of a
  supported type and accessible, and the module has two metrics: after \<open>PrepareTree\<close>,
  whose fourth walk hands the indexes of the root to the child, and on the tree as loaded
  with the name map of the first walk.
\<close>

theorem generateConfigModule_end_to_end_child:
  "generateConfigModule \<lparr>Walk = [''ifInOctets''], Lookups = [], Overrides = []\<rparr>
       (fst (PrepareTree ifInOctetsTree))
       (deref (fst (PrepareTree ifInOctetsTree)) (snd (PrepareTree ifInOctetsTree)))
     = Inr (\<lparr>Module_Walk = [''1.3.6.1.2.1.2.2.1.10''],
            Module_Metrics =
              [\<lparr>Metric_Name = ''ifInOctets'', Metric_Oid = ''1.3.6.1.2.1.2.2.1.10'',
                Metric_Type = ''counter'',
                Metric_Help = ''The total number of octets received on the interface - 1.3.6.1.2.1.2.2.1.10'',
                Metric_Indexes =
                  [\<lparr>Index_Labelname = ''ifIndex'', Index_Type = ''gauge'', Index_FixedSize = 0\<rparr>],
                Metric_Lookups = [], Metric_RegexpExtracts = None\<rparr>,
               \<lparr>Metric_Name = ''ifIndex'', Metric_Oid = ''1.3.6.1.2.1.2.2.1.1'',
                Metric_Type = ''gauge'',
                Metric_Help = ''A unique value - 1.3.6.1.2.1.2.2.1.1'',
                Metric_Indexes =
                  [\<lparr>Index_Labelname = ''ifIndex'', Index_Type = ''gauge'', Index_FixedSize = 0\<rparr>],
                Metric_Lookups = [], Metric_RegexpExtracts = None\<rparr>]\<rparr> :: nat config_Module)
   \<and> generateConfigModule \<lparr>Walk = [''ifInOctets''], Lookups = [], Overrides = []\<rparr>
       ifInOctetsTree
       (deref ifInOctetsTree (WalkNode ifInOctetsTree (putNode ifInOctetsTree) Map.empty))
     = Inr (\<lparr>Module_Walk = [''1.3.6.1.2.1.2.2.1.10''],
            Module_Metrics =
              [\<lparr>Metric_Name = ''ifInOctets'', Metric_Oid = ''1.3.6.1.2.1.2.2.1.10'',
                Metric_Type = ''counter'',
                Metric_Help = ''The total number of octets received on the interface - 1.3.6.1.2.1.2.2.1.10'',
                Metric_Indexes =
                  [\<lparr>Index_Labelname = ''ifIndex'', Index_Type = ''gauge'', Index_FixedSize = 0\<rparr>],
                Metric_Lookups = [], Metric_RegexpExtracts = None\<rparr>,
               \<lparr>Metric_Name = ''ifIndex'', Metric_Oid = ''1.3.6.1.2.1.2.2.1.1'',
                Metric_Type = ''gauge'',
                Metric_Help = ''A unique value - 1.3.6.1.2.1.2.2.1.1'',
                Metric_Indexes = [],
                Metric_Lookups = [], Metric_RegexpExtracts = None\<rparr>]\<rparr> :: nat config_Module)"
proof -
  have names: "WalkNode ifInOctetsTree (putNode ifInOctetsTree) Map.empty
      = [''1.3.6.1.2.1.2.2.1.10'' \<mapsto> [], ''ifInOctets'' \<mapsto> [],
         ''1.3.6.1.2.1.2.2.1.1'' \<mapsto> [0], ''ifIndex'' \<mapsto> [0]]"
    by (simp add: WalkNode_def putNode_def fieldsAt_def ifInOctetsTree_def)
  have raw: "generateConfigModule \<lparr>Walk = [''ifInOctets''], Lookups = [], Overrides = []\<rparr>
       ifInOctetsTree
       (deref ifInOctetsTree (WalkNode ifInOctetsTree (putNode ifInOctetsTree) Map.empty))
     = Inr (\<lparr>Module_Walk = [''1.3.6.1.2.1.2.2.1.10''],
            Module_Metrics =
              [\<lparr>Metric_Name = ''ifInOctets'', Metric_Oid = ''1.3.6.1.2.1.2.2.1.10'',
                Metric_Type = ''counter'',
                Metric_Help = ''The total number of octets received on the interface - 1.3.6.1.2.1.2.2.1.10'',
                Metric_Indexes =
                  [\<lparr>Index_Labelname = ''ifIndex'', Index_Type = ''gauge'', Index_FixedSize = 0\<rparr>],
                Metric_Lookups = [], Metric_RegexpExtracts = None\<rparr>,
               \<lparr>Metric_Name = ''ifIndex'', Metric_Oid = ''1.3.6.1.2.1.2.2.1.1'',
                Metric_Type = ''gauge'',
                Metric_Help = ''A unique value - 1.3.6.1.2.1.2.2.1.1'',
                Metric_Indexes = [],
                Metric_Lookups = [], Metric_RegexpExtracts = None\<rparr>]\<rparr> :: nat config_Module)"
    unfolding names by (simp add: gen_defs deref_def ifInOctetsTree_def)
  have prepared: "generateConfigModule \<lparr>Walk = [''ifInOctets''], Lookups = [], Overrides = []\<rparr>
       (fst (PrepareTree ifInOctetsTree))
       (deref (fst (PrepareTree ifInOctetsTree)) (snd (PrepareTree ifInOctetsTree)))
     = Inr (\<lparr>Module_Walk = [''1.3.6.1.2.1.2.2.1.10''],
            Module_Metrics =
              [\<lparr>Metric_Name = ''ifInOctets'', Metric_Oid = ''1.3.6.1.2.1.2.2.1.10'',
                Metric_Type = ''counter'',
                Metric_Help = ''The total number of octets received on the interface - 1.3.6.1.2.1.2.2.1.10'',
                Metric_Indexes =
                  [\<lparr>Index_Labelname = ''ifIndex'', Index_Type = ''gauge'', Index_FixedSize = 0\<rparr>],
                Metric_Lookups = [], Metric_RegexpExtracts = None\<rparr>,
               \<lparr>Metric_Name = ''ifIndex'', Metric_Oid = ''1.3.6.1.2.1.2.2.1.1'',
                Metric_Type = ''gauge'',
                Metric_Help = ''A unique value - 1.3.6.1.2.1.2.2.1.1'',
                Metric_Indexes =
                  [\<lparr>Index_Labelname = ''ifIndex'', Index_Type = ''gauge'', Index_FixedSize = 0\<rparr>],
                Metric_Lookups = [], Metric_RegexpExtracts = None\<rparr>]\<rparr> :: nat config_Module)"
    by (simp add: prepare_defs gen_defs deref_def ifInOctetsTree_def IsSpace_def)
  from prepared raw show ?thesis by (rule conjI)
qed

end
